theory Spec2Isabelle
  imports Main
begin

section \<open>The document object model\<close>

text \<open>
  A document is a forest of nodes. Every node has an identity (a number that is never
  reused), the properties the scripts read or write (node kind, tag name, \<open>type\<close>
  attribute, class list, inline \<open>style.width\<close> and \<open>style.display\<close>; the empty string stands
  for an unset style property) and its list of children in order. The tree of the
  document itself is the tree whose root is the \<open>Document\<close> node, with identity
  \<open>document\<close>; a node made by \<open>createElement\<close> and not yet inserted is a further root of
  the forest. \<open>nextId\<close> is the identity the next created node receives. An operation that
  throws returns the exception together with the state reached so far.
\<close>

datatype kind = Document | Element | Text

record props =
  nodeKind :: kind
  localName :: string
  typeAttr :: "string option"
  classList :: "string list"
  styleWidth :: string
  styleDisplay :: string

datatype node = Node (ident: nat) (attrs: props) (childNodes: "node list")

record dom =
  forest :: "node list"
  nextId :: nat

datatype error = TypeError | HierarchyRequestError | NotFoundError

type_synonym result = "(error \<times> dom) + dom"

definition document :: nat where
  "document = 0"

subsection \<open>Reading the tree\<close>

text \<open>
  \<open>nodes\<close> lists a forest in document order (a node before its descendants, siblings
  from first to last). \<open>chain i\<close> is the list of the inclusive ancestors of \<open>i\<close>, nearest
  first, so that \<open>closest\<close> returns the nearest inclusive ancestor that is an element
  carrying the given class. \<open>querySelectorAll\<close> returns the descendants of the document
  node matched by one of the selectors of a selector list, in document order; the
  selectors are the three forms the scripts use: \<open>tag[type="v"]\<close>, \<open>tag\<close> and \<open>.class\<close>.
\<close>

fun nodes :: "node list \<Rightarrow> (nat \<times> props) list" where
  "nodes [] = []"
| "nodes (Node i a ks # ts) = (i, a) # nodes ks @ nodes ts"

definition ids :: "node list \<Rightarrow> nat list" where
  "ids F = map fst (nodes F)"

fun lookup :: "nat \<Rightarrow> node list \<Rightarrow> node option" where
  "lookup i [] = None"
| "lookup i (Node j a ks # ts) =
     (if i = j then Some (Node j a ks)
      else case lookup i ks of Some n \<Rightarrow> Some n | None \<Rightarrow> lookup i ts)"

definition idents :: "node list \<Rightarrow> nat list" where
  "idents ks = map ident ks"

fun parentOf :: "nat \<Rightarrow> node list \<Rightarrow> nat option" where
  "parentOf i [] = None"
| "parentOf i (Node j a ks # ts) =
     (if i \<in> set (idents ks) then Some j
      else case parentOf i ks of Some p \<Rightarrow> Some p | None \<Rightarrow> parentOf i ts)"

fun chain :: "nat \<Rightarrow> node list \<Rightarrow> nat list" where
  "chain i [] = []"
| "chain i (Node j a ks # ts) =
     (if i = j then [j]
      else case chain i ks of [] \<Rightarrow> chain i ts | c # cs \<Rightarrow> (c # cs) @ [j])"

definition attrsOf :: "nat \<Rightarrow> dom \<Rightarrow> props option" where
  "attrsOf i st = map_of (nodes (forest st)) i"

definition childIds :: "nat \<Rightarrow> dom \<Rightarrow> nat list" where
  "childIds i st = (case lookup i (forest st) of None \<Rightarrow> [] | Some n \<Rightarrow> idents (childNodes n))"

definition parentNode :: "nat \<Rightarrow> dom \<Rightarrow> nat option" where
  "parentNode i st = parentOf i (forest st)"

definition classList_contains :: "nat \<Rightarrow> string \<Rightarrow> dom \<Rightarrow> bool" where
  "classList_contains i c st =
     (case attrsOf i st of None \<Rightarrow> False | Some a \<Rightarrow> c \<in> set (classList a))"

definition style_width :: "nat \<Rightarrow> dom \<Rightarrow> string" where
  "style_width i st = (case attrsOf i st of None \<Rightarrow> [] | Some a \<Rightarrow> styleWidth a)"

definition has_class :: "string \<Rightarrow> dom \<Rightarrow> nat \<Rightarrow> bool" where
  "has_class c st i =
     (case attrsOf i st of None \<Rightarrow> False
      | Some a \<Rightarrow> nodeKind a = Element \<and> c \<in> set (classList a))"

definition closest :: "nat \<Rightarrow> string \<Rightarrow> dom \<Rightarrow> nat option" where
  "closest i c st = find (has_class c st) (chain i (forest st))"

datatype selector = TagType string string | Tag string | Class string

fun matches :: "props \<Rightarrow> selector \<Rightarrow> bool" where
  "matches a (TagType t v) = (nodeKind a = Element \<and> localName a = t \<and> typeAttr a = Some v)"
| "matches a (Tag t) = (nodeKind a = Element \<and> localName a = t)"
| "matches a (Class c) = (nodeKind a = Element \<and> c \<in> set (classList a))"

definition matches_any :: "selector list \<Rightarrow> props \<Rightarrow> bool" where
  "matches_any sels a = list_ex (matches a) sels"

definition querySelectorAll :: "selector list \<Rightarrow> dom \<Rightarrow> nat list" where
  "querySelectorAll sels st =
     (case lookup document (forest st) of
        None \<Rightarrow> []
      | Some d \<Rightarrow> map fst (filter (\<lambda>(i, a). matches_any sels a) (nodes (childNodes d))))"

subsection \<open>Changing the tree\<close>

text \<open>
  \<open>insertBefore\<close> and \<open>appendChild\<close> first check that the insertion is valid (the parent
  can have children, the new node is not an inclusive ancestor of the parent, a document
  node gets no text node and no second element child; for \<open>insertBefore\<close> the reference child
  is a child of the parent), then remove the new node from where it is and put it at its
  new place. Assigning \<open>className\<close> replaces the class list.
\<close>

fun modify :: "nat \<Rightarrow> (node \<Rightarrow> node list) \<Rightarrow> node list \<Rightarrow> node list" where
  "modify i f [] = []"
| "modify i f (Node j a ks # ts) =
     (if i = j then f (Node j a ks) @ ts
      else Node j a (modify i f ks) # modify i f ts)"

definition remove :: "nat \<Rightarrow> node list \<Rightarrow> node list" where
  "remove i F = modify i (\<lambda>n. []) F"

definition set_attrs :: "nat \<Rightarrow> (props \<Rightarrow> props) \<Rightarrow> dom \<Rightarrow> dom" where
  "set_attrs i g st =
     st\<lparr>forest := modify i (\<lambda>n. [Node (ident n) (g (attrs n)) (childNodes n)]) (forest st)\<rparr>"

definition set_children :: "nat \<Rightarrow> (node list \<Rightarrow> node list) \<Rightarrow> node list \<Rightarrow> node list" where
  "set_children i g F = modify i (\<lambda>n. [Node (ident n) (attrs n) (g (childNodes n))]) F"

fun place_before :: "node \<Rightarrow> nat \<Rightarrow> node list \<Rightarrow> node list" where
  "place_before n c [] = [n]"
| "place_before n c (k # ks) = (if ident k = c then n # k # ks else k # place_before n c ks)"

definition createElement :: "string \<Rightarrow> dom \<Rightarrow> nat \<times> dom" where
  "createElement tag st =
     (nextId st,
      \<lparr>forest = Node (nextId st)
           \<lparr>nodeKind = Element, localName = tag, typeAttr = None, classList = [],
            styleWidth = [], styleDisplay = []\<rparr> [] # forest st,
       nextId = Suc (nextId st)\<rparr>)"

definition set_className :: "nat \<Rightarrow> string \<Rightarrow> dom \<Rightarrow> dom" where
  "set_className i c st = set_attrs i (\<lambda>a. a\<lparr>classList := [c]\<rparr>) st"

definition set_style_width :: "nat \<Rightarrow> string \<Rightarrow> dom \<Rightarrow> dom" where
  "set_style_width i v st = set_attrs i (\<lambda>a. a\<lparr>styleWidth := v\<rparr>) st"

definition set_style_display :: "nat \<Rightarrow> string \<Rightarrow> dom \<Rightarrow> dom" where
  "set_style_display i v st = set_attrs i (\<lambda>a. a\<lparr>styleDisplay := v\<rparr>) st"

definition insertion_error :: "node \<Rightarrow> node \<Rightarrow> node list \<Rightarrow> bool" where
  "insertion_error P N F \<longleftrightarrow>
     nodeKind (attrs P) = Text \<or> nodeKind (attrs N) = Document \<or>
     ident N \<in> set (chain (ident P) F) \<or>
     (nodeKind (attrs P) = Document \<and>
        (nodeKind (attrs N) = Text \<or>
         list_ex (\<lambda>k. nodeKind (attrs k) = Element) (childNodes P)))"

definition insertBefore :: "nat \<Rightarrow> nat \<Rightarrow> nat \<Rightarrow> dom \<Rightarrow> result" where
  "insertBefore parent new child st =
     (case (lookup parent (forest st), lookup new (forest st)) of
        (Some P, Some N) \<Rightarrow>
          if insertion_error P N (forest st) then Inl (HierarchyRequestError, st)
          else if child \<notin> set (idents (childNodes P)) then Inl (NotFoundError, st)
          else Inr (st\<lparr>forest :=
                 set_children parent (place_before N child) (remove new (forest st))\<rparr>)
      | _ \<Rightarrow> Inl (NotFoundError, st))"

definition appendChild :: "nat \<Rightarrow> nat \<Rightarrow> dom \<Rightarrow> result" where
  "appendChild parent new st =
     (case (lookup parent (forest st), lookup new (forest st)) of
        (Some P, Some N) \<Rightarrow>
          if insertion_error P N (forest st) then Inl (HierarchyRequestError, st)
          else Inr (st\<lparr>forest :=
                 set_children parent (\<lambda>ks. ks @ [N]) (remove new (forest st))\<rparr>)
      | _ \<Rightarrow> Inl (NotFoundError, st))"

definition andThen :: "result \<Rightarrow> (dom \<Rightarrow> result) \<Rightarrow> result" where
  "andThen r f = (case r of Inl e \<Rightarrow> Inl e | Inr st \<Rightarrow> f st)"

fun forEach :: "(nat \<Rightarrow> dom \<Rightarrow> result) \<Rightarrow> nat list \<Rightarrow> dom \<Rightarrow> result" where
  "forEach f [] st = Inr st"
| "forEach f (x # xs) st = andThen (f x st) (forEach f xs)"

section \<open>The first script\<close>

text \<open>
  Each callback follows its source statement by statement. The value of
  \<open>getComputedStyle(input).width\<close> depends on style sheets and layout, which are not part
  of the document; it is a parameter of the model. \<open>input.parentNode\<close> is \<open>null\<close> for a node
  without a parent, and the call of \<open>insertBefore\<close> on it throws a \<open>TypeError\<close>. An exception
  ends the \<open>forEach\<close> loop and the listener.
\<close>

definition inputs1 :: "selector list" where
  "inputs1 = [TagType ''input'' ''text'', TagType ''input'' ''email'',
              TagType ''input'' ''password'', Tag ''select'', Tag ''textarea'']"

definition wrap_input1 :: "(dom \<Rightarrow> nat \<Rightarrow> string) \<Rightarrow> nat \<Rightarrow> dom \<Rightarrow> result" where
  "wrap_input1 getComputedStyle_width input st =
     (if closest input ''input-animated-wrapper'' st \<noteq> None then Inr st
      else if classList_contains input ''search-input'' st then Inr st
      else
        let (wrapper, st1) = createElement ''div'' st;
            st2 = set_className wrapper ''input-animated-wrapper'' st1;
            inputWidth = (if style_width input st2 \<noteq> [] then style_width input st2
                          else getComputedStyle_width st2 input);
            st3 = (if inputWidth \<noteq> [] then set_style_width wrapper inputWidth st2 else st2)
        in case parentNode input st3 of
             None \<Rightarrow> Inl (TypeError, st3)
           | Some parent \<Rightarrow>
               andThen (insertBefore parent wrapper input st3) (appendChild wrapper input))"

definition decorate_inputs1 :: "(dom \<Rightarrow> nat \<Rightarrow> string) \<Rightarrow> dom \<Rightarrow> result" where
  "decorate_inputs1 gcs st = forEach (wrap_input1 gcs) (querySelectorAll inputs1 st) st"

definition buttons1 :: "selector list" where
  "buttons1 = [Class ''btn-primary'', Class ''submit-btn'', TagType ''button'' ''submit'']"

definition wrap_button1 :: "nat \<Rightarrow> dom \<Rightarrow> result" where
  "wrap_button1 button st =
     (if closest button ''btn-animated-wrapper'' st \<noteq> None then Inr st
      else if classList_contains button ''nav-btn'' st \<or> classList_contains button ''tab-btn'' st
              \<or> classList_contains button ''card-btn'' st then Inr st
      else
        let (wrapper, st1) = createElement ''div'' st;
            st2 = set_className wrapper ''btn-animated-wrapper'' st1
        in case parentNode button st2 of
             None \<Rightarrow> Inl (TypeError, st2)
           | Some parent \<Rightarrow>
               andThen (insertBefore parent wrapper button st2) (appendChild wrapper button))"

definition decorate_buttons1 :: "dom \<Rightarrow> result" where
  "decorate_buttons1 st = forEach wrap_button1 (querySelectorAll buttons1 st) st"

definition listener1 :: "(dom \<Rightarrow> nat \<Rightarrow> string) \<Rightarrow> dom \<Rightarrow> result" where
  "listener1 gcs st = andThen (decorate_inputs1 gcs st) decorate_buttons1"

section \<open>The second script\<close>

text \<open>
  The second script selects \<open>.search-input\<close> as well, copies no width, gives the button
  wrapper an inline display style and puts three layer elements into every wrapper
  before the target.
\<close>

definition inputs2 :: "selector list" where
  "inputs2 = [TagType ''input'' ''text'', TagType ''input'' ''email'',
              TagType ''input'' ''password'', Class ''search-input'', Tag ''select'',
              Tag ''textarea'']"

definition wrap_input2 :: "nat \<Rightarrow> dom \<Rightarrow> result" where
  "wrap_input2 input st =
     (if \<not> (closest input ''input-animated-wrapper'' st \<noteq> None) then
        let (wrapper, st1) = createElement ''div'' st;
            st2 = set_className wrapper ''input-animated-wrapper'' st1;
            (glow, st3) = createElement ''div'' st2;
            st4 = set_className glow ''glow-input'' st3;
            (darkBorder, st5) = createElement ''div'' st4;
            st6 = set_className darkBorder ''darkBorderBg-input'' st5;
            (border, st7) = createElement ''div'' st6;
            st8 = set_className border ''border-input'' st7
        in case parentNode input st8 of
             None \<Rightarrow> Inl (TypeError, st8)
           | Some parent \<Rightarrow>
               andThen (andThen (andThen (andThen
                 (insertBefore parent wrapper input st8)
                 (appendChild wrapper glow))
                 (appendChild wrapper darkBorder))
                 (appendChild wrapper border))
                 (appendChild wrapper input)
      else Inr st)"

definition decorate_inputs2 :: "dom \<Rightarrow> result" where
  "decorate_inputs2 st = forEach wrap_input2 (querySelectorAll inputs2 st) st"

definition buttons2 :: "selector list" where
  "buttons2 = [Class ''btn'', Class ''btn-primary'', Class ''btn-secondary'', Class ''btn-danger'',
               Class ''submit-btn'', TagType ''button'' ''submit'']"

definition wrap_button2 :: "nat \<Rightarrow> dom \<Rightarrow> result" where
  "wrap_button2 button st =
     (if \<not> (closest button ''btn-animated-wrapper'' st \<noteq> None)
         \<and> \<not> classList_contains button ''nav-btn'' st
         \<and> \<not> classList_contains button ''tab-btn'' st then
        let (wrapper, st1) = createElement ''div'' st;
            st2 = set_className wrapper ''btn-animated-wrapper'' st1;
            st3 = set_style_display wrapper ''inline-block'' st2;
            (glow, st4) = createElement ''div'' st3;
            st5 = set_className glow ''glow-btn'' st4;
            (darkBorder, st6) = createElement ''div'' st5;
            st7 = set_className darkBorder ''darkBorderBg-btn'' st6;
            (border, st8) = createElement ''div'' st7;
            st9 = set_className border ''border-btn'' st8
        in case parentNode button st9 of
             None \<Rightarrow> Inl (TypeError, st9)
           | Some parent \<Rightarrow>
               andThen (andThen (andThen (andThen
                 (insertBefore parent wrapper button st9)
                 (appendChild wrapper glow))
                 (appendChild wrapper darkBorder))
                 (appendChild wrapper border))
                 (appendChild wrapper button)
      else Inr st)"

definition decorate_buttons2 :: "dom \<Rightarrow> result" where
  "decorate_buttons2 st = forEach wrap_button2 (querySelectorAll buttons2 st) st"

definition listener2 :: "dom \<Rightarrow> result" where
  "listener2 st = andThen (decorate_inputs2 st) decorate_buttons2"

section \<open>Auxiliary notions for the proofs\<close>

text \<open>
  The effect of a callback that is not skipped is described by \<open>decorated\<close>: the target is
  replaced, where it stands, by a new wrapper node whose children are the new layer nodes
  followed by the target. The four passes are treated uniformly through their selector
  list, wrapper class, excluded classes and layer classes. \<open>wf\<close> says that identities are
  unique and below \<open>nextId\<close>; \<open>rooted\<close> that in addition the document node is one of the
  roots of the forest (the other roots are nodes outside the document, which have no
  parent); \<open>well_formed\<close> that the forest is the document tree alone; \<open>safe\<close> that every selected element is an element with an element as its
  parent (the root element directly under the document node is not selected); \<open>clear\<close>
  describes the elements a pass wraps, \<open>owns\<close> the wrapper such an element has afterwards,
  and \<open>grown\<close> is the invariant of a pass that started in state \<open>s0\<close>.
\<close>

fun leaves :: "nat \<Rightarrow> props list \<Rightarrow> node list" where
  "leaves n [] = []"
| "leaves n (a # as) = Node n a [] # leaves (Suc n) as"

definition wrapF :: "nat \<Rightarrow> nat \<Rightarrow> props \<Rightarrow> props list \<Rightarrow> node list \<Rightarrow> node list" where
  "wrapF e w wa las F = modify e (\<lambda>s. [Node w wa (leaves (Suc w) las @ [s])]) F"

definition layerIds :: "nat \<Rightarrow> props list \<Rightarrow> nat list" where
  "layerIds w las = [Suc w..<Suc w + length las]"

definition wrapN :: "nat \<Rightarrow> nat \<Rightarrow> props \<Rightarrow> props list \<Rightarrow> node \<Rightarrow> node" where
  "wrapN e w wa las n = Node (ident n) (attrs n) (wrapF e w wa las (childNodes n))"

definition wf :: "dom \<Rightarrow> bool" where
  "wf st \<longleftrightarrow> distinct (ids (forest st)) \<and> (\<forall>i \<in> set (ids (forest st)). i < nextId st)"

definition is_element :: "nat \<Rightarrow> dom \<Rightarrow> bool" where
  "is_element i st = (case attrsOf i st of Some a \<Rightarrow> nodeKind a = Element | None \<Rightarrow> False)"

definition placed :: "nat \<Rightarrow> dom \<Rightarrow> bool" where
  "placed e st \<longleftrightarrow>
     is_element e st \<and> (case parentNode e st of Some p \<Rightarrow> is_element p st | None \<Rightarrow> False)"

definition div_with :: "string \<Rightarrow> props" where
  "div_with c = \<lparr>nodeKind = Element, localName = ''div'', typeAttr = None, classList = [c],
                 styleWidth = [], styleDisplay = []\<rparr>"

definition decorated :: "props \<Rightarrow> props list \<Rightarrow> nat \<Rightarrow> dom \<Rightarrow> dom" where
  "decorated wa las e st =
     \<lparr>forest = wrapF e (nextId st) wa las (forest st), nextId = nextId st + Suc (length las)\<rparr>"

datatype pass = Inputs1 | Buttons1 | Inputs2 | Buttons2

fun callback :: "(dom \<Rightarrow> nat \<Rightarrow> string) \<Rightarrow> pass \<Rightarrow> nat \<Rightarrow> dom \<Rightarrow> result" where
  "callback g Inputs1 = wrap_input1 g"
| "callback g Buttons1 = wrap_button1"
| "callback g Inputs2 = wrap_input2"
| "callback g Buttons2 = wrap_button2"

fun run :: "(dom \<Rightarrow> nat \<Rightarrow> string) \<Rightarrow> pass \<Rightarrow> dom \<Rightarrow> result" where
  "run g Inputs1 = decorate_inputs1 g"
| "run g Buttons1 = decorate_buttons1"
| "run g Inputs2 = decorate_inputs2"
| "run g Buttons2 = decorate_buttons2"

fun selectors :: "pass \<Rightarrow> selector list" where
  "selectors Inputs1 = inputs1"
| "selectors Buttons1 = buttons1"
| "selectors Inputs2 = inputs2"
| "selectors Buttons2 = buttons2"

fun wrapperClass :: "pass \<Rightarrow> string" where
  "wrapperClass Inputs1 = ''input-animated-wrapper''"
| "wrapperClass Buttons1 = ''btn-animated-wrapper''"
| "wrapperClass Inputs2 = ''input-animated-wrapper''"
| "wrapperClass Buttons2 = ''btn-animated-wrapper''"

fun excludedClasses :: "pass \<Rightarrow> string list" where
  "excludedClasses Inputs1 = [''search-input'']"
| "excludedClasses Buttons1 = [''nav-btn'', ''tab-btn'', ''card-btn'']"
| "excludedClasses Inputs2 = []"
| "excludedClasses Buttons2 = [''nav-btn'', ''tab-btn'']"

fun layerClasses :: "pass \<Rightarrow> string list" where
  "layerClasses Inputs1 = []"
| "layerClasses Buttons1 = []"
| "layerClasses Inputs2 = [''glow-input'', ''darkBorderBg-input'', ''border-input'']"
| "layerClasses Buttons2 = [''glow-btn'', ''darkBorderBg-btn'', ''border-btn'']"

definition excluded :: "pass \<Rightarrow> nat \<Rightarrow> dom \<Rightarrow> bool" where
  "excluded ps e st = list_ex (\<lambda>c. classList_contains e c st) (excludedClasses ps)"

definition skips :: "pass \<Rightarrow> nat \<Rightarrow> dom \<Rightarrow> bool" where
  "skips ps e st \<longleftrightarrow> closest e (wrapperClass ps) st \<noteq> None \<or> excluded ps e st"

fun wrapperAttrs :: "(dom \<Rightarrow> nat \<Rightarrow> string) \<Rightarrow> pass \<Rightarrow> dom \<Rightarrow> nat \<Rightarrow> props" where
  "wrapperAttrs g Inputs1 st e =
     (div_with ''input-animated-wrapper'')
       \<lparr>styleWidth :=
          (if style_width e st \<noteq> [] then style_width e st
           else g \<lparr>forest = Node (nextId st) (div_with ''input-animated-wrapper'') [] # forest st,
                   nextId = Suc (nextId st)\<rparr> e)\<rparr>"
| "wrapperAttrs g Buttons1 st e = div_with ''btn-animated-wrapper''"
| "wrapperAttrs g Inputs2 st e = div_with ''input-animated-wrapper''"
| "wrapperAttrs g Buttons2 st e = (div_with ''btn-animated-wrapper'')\<lparr>styleDisplay := ''inline-block''\<rparr>"

definition layerAttrs :: "pass \<Rightarrow> props list" where
  "layerAttrs ps = map div_with (layerClasses ps)"

definition step :: "(dom \<Rightarrow> nat \<Rightarrow> string) \<Rightarrow> pass \<Rightarrow> nat \<Rightarrow> dom \<Rightarrow> dom" where
  "step g ps e st =
     (if skips ps e st then st
      else decorated (wrapperAttrs g ps st e) (layerAttrs ps) e st)"

definition is_wrapper :: "pass \<Rightarrow> props \<Rightarrow> bool" where
  "is_wrapper ps a \<longleftrightarrow>
     a\<lparr>styleWidth := []\<rparr> =
       (div_with (wrapperClass ps))
         \<lparr>styleDisplay := (if ps = Buttons2 then ''inline-block'' else [])\<rparr>"

definition is_layer :: "pass \<Rightarrow> props \<Rightarrow> bool" where
  "is_layer ps a \<longleftrightarrow> a \<in> set (layerAttrs ps)"

definition matched :: "pass \<Rightarrow> nat \<Rightarrow> dom \<Rightarrow> bool" where
  "matched ps x st =
     (case attrsOf x st of None \<Rightarrow> False | Some a \<Rightarrow> matches_any (selectors ps) a)"

definition grown :: "pass \<Rightarrow> dom \<Rightarrow> dom \<Rightarrow> bool" where
  "grown ps s0 st \<longleftrightarrow>
     wf st \<and> nextId s0 \<le> nextId st \<and>
     (\<forall>x<nextId s0. attrsOf x st = attrsOf x s0) \<and>
     (\<forall>x<nextId s0. parentNode x st = parentNode x s0 \<or>
        (\<exists>p\<ge>nextId s0. parentNode x st = Some p \<and> has_class (wrapperClass ps) st p)) \<and>
     (\<forall>x\<ge>nextId s0. \<forall>a. attrsOf x st = Some a \<longrightarrow> is_wrapper ps a \<or> is_layer ps a)"

definition well_formed :: "dom \<Rightarrow> bool" where
  "well_formed st \<longleftrightarrow>
     wf st \<and>
     (case forest st of
        [Node i a ks] \<Rightarrow> i = document \<and> nodeKind a = Document
      | _ \<Rightarrow> False)"


definition safe :: "pass \<Rightarrow> dom \<Rightarrow> bool" where
  "safe ps st \<longleftrightarrow> (\<forall>e \<in> set (querySelectorAll (selectors ps) st). placed e st)"

definition topmost :: "pass \<Rightarrow> nat \<Rightarrow> dom \<Rightarrow> bool" where
  "topmost ps e st \<longleftrightarrow>
     (\<forall>i \<in> set (tl (chain e (forest st))). \<not> (matched ps i st \<and> \<not> excluded ps i st))"

definition clear :: "pass \<Rightarrow> nat \<Rightarrow> dom \<Rightarrow> bool" where
  "clear ps e st \<longleftrightarrow>
     \<not> excluded ps e st \<and> closest e (wrapperClass ps) st = None \<and> topmost ps e st"

definition owns :: "pass \<Rightarrow> dom \<Rightarrow> nat \<Rightarrow> dom \<Rightarrow> nat \<Rightarrow> bool" where
  "owns ps s0 e st w \<longleftrightarrow>
     nextId s0 \<le> w \<and> parentNode e st = Some w \<and>
     (case attrsOf w st of None \<Rightarrow> False
      | Some a \<Rightarrow> is_wrapper ps a \<and>
          (ps = Inputs1 \<and> style_width e s0 \<noteq> [] \<longrightarrow> styleWidth a = style_width e s0)) \<and>
     childIds w st = layerIds w (layerAttrs ps) @ [e] \<and>
     (\<forall>k<length (layerAttrs ps). attrsOf (Suc w + k) st = Some (layerAttrs ps ! k)) \<and>
     chain e (forest st) = e # w # tl (chain e (forest s0)) \<and>
     parentNode w st = parentNode e s0"

definition precedes :: "nat \<Rightarrow> nat \<Rightarrow> nat list \<Rightarrow> bool" where
  "precedes x y l \<longleftrightarrow> x \<noteq> y \<and> y \<in> set (dropWhile (\<lambda>z. z \<noteq> x) l)"

definition outer :: "nat \<Rightarrow> dom \<Rightarrow> nat \<Rightarrow> nat" where
  "outer n st x = (case parentNode x st of Some p \<Rightarrow> if n \<le> p then p else x | None \<Rightarrow> x)"

datatype script = First | Second

fun listener :: "(dom \<Rightarrow> nat \<Rightarrow> string) \<Rightarrow> script \<Rightarrow> dom \<Rightarrow> result" where
  "listener g First = listener1 g"
| "listener g Second = listener2"

fun inputPass :: "script \<Rightarrow> pass" where
  "inputPass First = Inputs1"
| "inputPass Second = Inputs2"

fun buttonPass :: "script \<Rightarrow> pass" where
  "buttonPass First = Buttons1"
| "buttonPass Second = Buttons2"

definition untouched :: "pass \<Rightarrow> nat \<Rightarrow> dom \<Rightarrow> bool" where
  "untouched ps e st \<longleftrightarrow>
     (\<forall>i \<in> set (chain e (forest st)). \<not> (matched ps i st \<and> \<not> excluded ps i st))"

section \<open>Observations and sample pages\<close>

definition final :: "result \<Rightarrow> dom" where
  "final r = (case r of Inl (e, st) \<Rightarrow> st | Inr st \<Rightarrow> st)"

definition raised :: "result \<Rightarrow> error option" where
  "raised r = (case r of Inl (e, st) \<Rightarrow> Some e | Inr st \<Rightarrow> None)"

definition element :: "string \<Rightarrow> string option \<Rightarrow> string list \<Rightarrow> string \<Rightarrow> props" where
  "element t ty cs w =
     \<lparr>nodeKind = Element, localName = t, typeAttr = ty, classList = cs, styleWidth = w,
      styleDisplay = []\<rparr>"

definition document_node :: props where
  "document_node =
     \<lparr>nodeKind = Document, localName = [], typeAttr = None, classList = [], styleWidth = [],
      styleDisplay = []\<rparr>"

definition no_style :: "dom \<Rightarrow> nat \<Rightarrow> string" where
  "no_style st i = []"

definition plain_page :: dom where
  "plain_page =
     \<lparr>forest = [Node 0 document_node [Node 1 (element ''html'' None [] [])
        [Node 2 (element ''body'' None [] []) [Node 3 (element ''p'' None [] []) []]]]],
      nextId = 4\<rparr>"

definition nested_page :: dom where
  "nested_page =
     \<lparr>forest = [Node 0 document_node [Node 1 (element ''html'' None [] [])
        [Node 2 (element ''body'' None [] [])
          [Node 3 (element ''a'' None [''btn-primary''] [])
             [Node 4 (element ''span'' None [''submit-btn'', ''nav-btn''] []) []],
           Node 5 (element ''div'' None [''btn-primary''] [])
             [Node 6 (element ''button'' (Some ''submit'') [] []) []],
           Node 7 (element ''button'' (Some ''submit'') [''tab-btn''] []) []]]]],
      nextId = 8\<rparr>"

definition form_page :: dom where
  "form_page =
     \<lparr>forest = [Node 0 document_node [Node 1 (element ''html'' None [] [])
        [Node 2 (element ''body'' None [] [])
          [Node 3 (element ''input'' (Some ''text'') [''btn-primary''] ''100px'') [],
           Node 4 (element ''textarea'' None [] []) []]]]],
      nextId = 5\<rparr>"

definition search_page :: dom where
  "search_page =
     \<lparr>forest = [Node 0 document_node [Node 1 (element ''html'' None [] [])
        [Node 2 (element ''body'' None [] [])
          [Node 3 (element ''input'' (Some ''search'') [''search-input''] []) [],
           Node 4 (element ''button'' None [''btn'', ''card-btn''] []) []]]]],
      nextId = 5\<rparr>"


definition root_page :: dom where
  "root_page =
     \<lparr>forest = [Node 0 document_node [Node 1 (element ''html'' None [''btn-primary''] [])
        [Node 2 (element ''body'' None [] [])
          [Node 3 (element ''textarea'' None [] []) []]]]],
      nextId = 4\<rparr>"

definition wrapped_page :: dom where
  "wrapped_page =
     \<lparr>forest = [Node 0 document_node [Node 1 (element ''html'' None [] [])
        [Node 2 (element ''body'' None [] [])
          [Node 3 (element ''div'' None [''btn-animated-wrapper''] [])
             [Node 4 (element ''span'' None [] [])
                [Node 5 (element ''button'' (Some ''submit'') [] []) []]]]]]],
      nextId = 6\<rparr>"

definition inner_page :: dom where
  "inner_page =
     \<lparr>forest = [Node 0 document_node [Node 1 (element ''html'' None [] [])
        [Node 2 (element ''body'' None [] [])
          [Node 3 (element ''div'' None [''btn-primary''] [])
             [Node 4 (element ''textarea'' None [] []) []]]]]],
      nextId = 5\<rparr>"

definition siblings_page :: dom where
  "siblings_page =
     \<lparr>forest = [Node 0 document_node [Node 1 (element ''html'' None [] [])
        [Node 2 (element ''body'' None [] [])
          [Node 3 (element ''div'' None [''btn-primary''] [])
             [Node 4 (element ''button'' (Some ''submit'') [] []) [],
              Node 5 (element ''button'' (Some ''submit'') [] []) []]]]]],
      nextId = 6\<rparr>"

section \<open>Forests: nodes, lookup, parents and ancestor chains\<close>

lemma ids_Nil [simp]: "ids [] = []"
  by (simp add: ids_def)

lemma ids_Cons [simp]: "ids (Node i a ks # ts) = i # ids ks @ ids ts"
  by (simp add: ids_def)

lemma nodes_append [simp]: "nodes (A @ B) = nodes A @ nodes B"
  by (induction A rule: nodes.induct) auto

lemma ids_append [simp]: "ids (A @ B) = ids A @ ids B"
  by (simp add: ids_def)

lemma lookup_None_iff: "lookup i F = None \<longleftrightarrow> i \<notin> set (ids F)"
  by (induction i F rule: lookup.induct) (auto split: option.splits)

lemma lookup_ident: "lookup i F = Some n \<Longrightarrow> ident n = i"
  by (induction i F rule: lookup.induct) (auto split: option.splits if_splits)

lemma lookup_in_ids: "lookup i F = Some n \<Longrightarrow> i \<in> set (ids F)"
  using lookup_None_iff [of i F] by auto

lemma map_of_nodes_None: "map_of (nodes F) i = None \<longleftrightarrow> i \<notin> set (ids F)"
  by (simp add: map_of_eq_None_iff ids_def)

lemma map_of_nodes: "map_of (nodes F) i = map_option attrs (lookup i F)"
proof (induction i F rule: lookup.induct)
  case (1 i)
  then show ?case by simp
next
  case (2 i j a ks ts)
  show ?case
  proof (cases "i = j")
    case True
    then show ?thesis by simp
  next
    case False
    show ?thesis
    proof (cases "lookup i ks")
      case None
      then have "map_of (nodes ks) i = None"
        by (simp add: map_of_nodes_None lookup_None_iff)
      with None False 2 show ?thesis by (simp add: map_add_def)
    next
      case (Some n)
      with False 2 show ?thesis by (simp add: map_add_def)
    qed
  qed
qed

lemma lookup_append:
  "lookup i (A @ B) = (case lookup i A of Some n \<Rightarrow> Some n | None \<Rightarrow> lookup i B)"
  by (induction i A rule: lookup.induct) (auto split: option.splits)

lemma chain_Nil_iff: "chain i F = [] \<longleftrightarrow> i \<notin> set (ids F)"
  by (induction i F rule: chain.induct) (auto split: list.splits)

lemma chain_subset: "set (chain i F) \<subseteq> set (ids F)"
  by (induction i F rule: chain.induct) (auto split: list.splits)

lemma chain_notin: "i \<notin> set (ids F) \<Longrightarrow> chain i F = []"
  by (simp add: chain_Nil_iff)

lemma chain_Cons_in: "chain i F = c # cs \<Longrightarrow> i \<in> set (ids F)"
  using chain_Nil_iff [of i F] by auto

lemma chain_append:
  "chain i (A @ B) = (if i \<in> set (ids A) then chain i A else chain i B)"
proof (induction i A rule: chain.induct)
  case (1 i)
  then show ?case by simp
next
  case (2 i j a ks ts)
  show ?case
  proof (cases "i = j")
    case True
    then show ?thesis by simp
  next
    case False
    show ?thesis
    proof (cases "chain i ks")
      case Nil
      then have "i \<notin> set (ids ks)" by (simp add: chain_Nil_iff)
      with Nil False 2 show ?thesis by simp
    next
      case (Cons c cs)
      then have "i \<in> set (ids ks)" by (rule chain_Cons_in)
      with Cons False show ?thesis by simp
    qed
  qed
qed

lemma chain_hd: "i \<in> set (ids F) \<Longrightarrow> \<exists>cs. chain i F = i # cs"
proof (induction i F rule: chain.induct)
  case (1 i)
  then show ?case by simp
next
  case (2 i j a ks ts)
  show ?case
  proof (cases "i = j")
    case True
    then show ?thesis by simp
  next
    case False
    show ?thesis
    proof (cases "chain i ks")
      case Nil
      then have "i \<notin> set (ids ks)" by (simp add: chain_Nil_iff)
      with Nil False 2 show ?thesis by simp
    next
      case (Cons c cs)
      then have "i \<in> set (ids ks)" by (rule chain_Cons_in)
      with False 2 have "\<exists>cs. chain i ks = i # cs" by simp
      with Cons False show ?thesis by auto
    qed
  qed
qed

lemma chain_distinct: "distinct (ids F) \<Longrightarrow> distinct (chain i F)"
proof (induction i F rule: chain.induct)
  case (1 i)
  then show ?case by simp
next
  case (2 i j a ks ts)
  show ?case
  proof (cases "i = j")
    case True
    then show ?thesis by simp
  next
    case False
    have "j \<notin> set (chain i ks)" using chain_subset [of i ks] "2.prems" by auto
    with False 2 show ?thesis by (auto split: list.splits)
  qed
qed

lemma modify_notin: "i \<notin> set (ids F) \<Longrightarrow> modify i f F = F"
  by (induction i f F rule: modify.induct) auto

lemma idents_Nil [simp]: "idents [] = []"
  by (simp add: idents_def)

lemma idents_Cons [simp]: "idents (k # ks) = ident k # idents ks"
  by (simp add: idents_def)

lemma idents_append [simp]: "idents (A @ B) = idents A @ idents B"
  by (simp add: idents_def)

lemma idents_subset: "set (idents ks) \<subseteq> set (ids ks)"
  by (induction ks rule: nodes.induct) auto

lemma parentOf_None_kids: "parentOf i ks = None \<Longrightarrow> i \<in> set (ids ks) \<Longrightarrow> i \<in> set (idents ks)"
  by (induction i ks rule: parentOf.induct) (auto split: option.splits if_splits)

lemma parentOf_in_ids: "parentOf i F = Some p \<Longrightarrow> i \<in> set (ids F) \<and> p \<in> set (ids F)"
  using idents_subset
  by (induction i F rule: parentOf.induct) (fastforce split: option.splits if_splits)+

lemma chain_top: "i \<in> set (idents ks) \<Longrightarrow> distinct (ids ks) \<Longrightarrow> chain i ks = [i]"
proof (induction i ks rule: chain.induct)
  case (1 i)
  then show ?case by simp
next
  case (2 i j a ks ts)
  show ?case
  proof (cases "i = j")
    case True
    then show ?thesis by simp
  next
    case False
    with "2.prems" have its: "i \<in> set (idents ts)" by auto
    then have "i \<in> set (ids ts)" using idents_subset by blast
    with "2.prems" have "i \<notin> set (ids ks)" by auto
    then have "chain i ks = []" by (simp add: chain_Nil_iff)
    with False 2 its show ?thesis by auto
  qed
qed

lemma chain_parent:
  "parentOf i F = Some p \<Longrightarrow> distinct (ids F) \<Longrightarrow> chain i F = i # chain p F"
proof (induction i F arbitrary: p rule: parentOf.induct)
  case (1 i)
  then show ?case by simp
next
  case (2 i j a ks ts)
  show ?case
  proof (cases "i \<in> set (idents ks)")
    case True
    then have inks: "i \<in> set (ids ks)" using idents_subset by blast
    with "2.prems" have ij: "i \<noteq> j" by auto
    from True "2.prems" have "chain i ks = [i]" by (auto intro: chain_top)
    with True ij "2.prems" show ?thesis by auto
  next
    case False
    note nk = False
    show ?thesis
    proof (cases "parentOf i ks")
      case (Some q)
      with nk "2.prems" have pq: "p = q" by simp
      from Some have ii: "i \<in> set (ids ks)" "q \<in> set (ids ks)"
        using parentOf_in_ids by blast+
      with "2.prems" have ne: "i \<noteq> j" "q \<noteq> j" by auto
      from "2.IH"(1) [OF nk Some] "2.prems" have "chain i ks = i # chain q ks" by simp
      moreover from ii have "chain q ks \<noteq> []" by (simp add: chain_Nil_iff)
      ultimately show ?thesis using ne pq by (auto split: list.splits)
    next
      case None
      with nk "2.prems" have pt: "parentOf i ts = Some p" by simp
      then have ii: "i \<in> set (ids ts)" "p \<in> set (ids ts)"
        using parentOf_in_ids by blast+
      with "2.prems" have ne: "i \<noteq> j" "p \<noteq> j" "i \<notin> set (ids ks)" "p \<notin> set (ids ks)" by auto
      then have "chain i ks = []" "chain p ks = []" by (simp_all add: chain_Nil_iff)
      moreover from "2.IH"(2) [OF nk None pt] "2.prems" have "chain i ts = i # chain p ts" by simp
      ultimately show ?thesis using ne by simp
    qed
  qed
qed

lemma chain_root:
  "parentOf i F = None \<Longrightarrow> i \<in> set (ids F) \<Longrightarrow> distinct (ids F) \<Longrightarrow> chain i F = [i]"
  using parentOf_None_kids chain_top by blast

section \<open>Wrapping a node of a forest\<close>

lemma ids_leaves: "ids (leaves n as) = [n..<n + length as]"
  by (induction n as rule: leaves.induct) (auto simp: upt_rec)

lemma idents_leaves: "idents (leaves n as) = [n..<n + length as]"
  by (induction n as rule: leaves.induct) (auto simp: upt_rec)

lemma nodes_leaves: "nodes (leaves n as) = zip [n..<n + length as] as"
  by (induction n as rule: leaves.induct) (auto simp: upt_rec)

lemma ids_layers: "ids (leaves (Suc w) las) = layerIds w las"
  by (simp add: ids_leaves layerIds_def)

lemma idents_layers: "idents (leaves (Suc w) las) = layerIds w las"
  by (simp add: idents_leaves layerIds_def)

lemma layerIds_gt: "x \<in> set (layerIds w las) \<Longrightarrow> w < x"
  by (auto simp: layerIds_def)

lemma distinct_layerIds: "distinct (layerIds w las)"
  by (simp add: layerIds_def)

lemma length_layerIds: "length (layerIds w las) = length las"
  unfolding layerIds_def length_upt by simp

lemma lookup_leaves_None: "x \<notin> set (ids (leaves n as)) \<Longrightarrow> lookup x (leaves n as) = None"
  by (simp add: lookup_None_iff)

lemma parentOf_leaves: "parentOf x (leaves n as) = None"
  by (induction n as rule: leaves.induct) auto

lemma parentOf_append:
  "parentOf x (A @ B) = (case parentOf x A of Some p \<Rightarrow> Some p | None \<Rightarrow> parentOf x B)"
  by (induction x A rule: parentOf.induct) (auto split: option.splits)

lemma parentOf_notin: "x \<notin> set (ids F) \<Longrightarrow> parentOf x F = None"
  using parentOf_in_ids [of x F] by (cases "parentOf x F") auto

lemma wrapF_Nil [simp]: "wrapF e w wa las [] = []"
  by (simp add: wrapF_def)

lemma wrapF_Cons:
  "wrapF e w wa las (Node j a ks # ts) =
     (if e = j then Node w wa (leaves (Suc w) las @ [Node j a ks]) # ts
      else Node j a (wrapF e w wa las ks) # wrapF e w wa las ts)"
  by (simp add: wrapF_def)

lemma wrapF_notin: "e \<notin> set (ids F) \<Longrightarrow> wrapF e w wa las F = F"
  by (simp add: wrapF_def modify_notin)

lemma concat_map_id:
  "e \<notin> set xs \<Longrightarrow> concat (map (\<lambda>i. if i = e then f i else [i]) xs) = xs"
  by (induction xs) auto

lemma ids_wrapF:
  "distinct (ids F) \<Longrightarrow>
   ids (wrapF e w wa las F) =
     concat (map (\<lambda>i. if i = e then w # layerIds w las @ [i] else [i]) (ids F))"
proof (induction F rule: nodes.induct)
  case 1
  then show ?case by simp
next
  case (2 j a ks ts)
  show ?case
  proof (cases "e = j")
    case True
    with "2.prems" have "e \<notin> set (ids ks @ ids ts)" by auto
    then have "concat (map (\<lambda>i. if i = e then w # layerIds w las @ [i] else [i])
                 (ids ks @ ids ts)) = ids ks @ ids ts"
      by (rule concat_map_id)
    with True show ?thesis by (simp add: wrapF_Cons ids_layers)
  next
    case False
    with 2 show ?thesis by (simp add: wrapF_Cons)
  qed
qed

lemma set_concat_map:
  "set (concat (map (\<lambda>i. if i = e then f i else [i]) xs)) =
     (if e \<in> set xs then set xs - {e} \<union> set (f e) else set xs)"
  by (induction xs) auto

lemma set_ids_wrapF:
  assumes "distinct (ids F)" and "e \<in> set (ids F)"
  shows "set (ids (wrapF e w wa las F)) = set (ids F) \<union> {w} \<union> set (layerIds w las)"
  using assms unfolding ids_wrapF [OF assms(1)] set_concat_map by auto

lemma distinct_concat_map:
  "distinct xs \<Longrightarrow> distinct (f e) \<Longrightarrow> set (f e) \<inter> set xs \<subseteq> {e} \<Longrightarrow>
   distinct (concat (map (\<lambda>i. if i = e then f i else [i]) xs))"
proof (induction xs)
  case Nil
  then show ?case by simp
next
  case (Cons x xs)
  then have IH: "distinct (concat (map (\<lambda>i. if i = e then f i else [i]) xs))" by auto
  show ?case
  proof (cases "x = e")
    case True
    with Cons.prems have "e \<notin> set xs" by auto
    then have "concat (map (\<lambda>i. if i = e then f i else [i]) xs) = xs"
      by (rule concat_map_id)
    with True Cons.prems show ?thesis by auto
  next
    case False
    have "set (concat (map (\<lambda>i. if i = e then f i else [i]) xs)) \<subseteq> set xs \<union> set (f e)"
      by (auto split: if_splits)
    with False Cons.prems IH show ?thesis by auto
  qed
qed

lemma distinct_ids_wrapF:
  assumes "distinct (ids F)" and "\<forall>i \<in> set (ids F). i < w"
  shows "distinct (ids (wrapF e w wa las F))"
proof -
  let ?f = "\<lambda>i. w # layerIds w las @ [i]"
  have "e \<in> set (ids F) \<Longrightarrow> distinct (?f e)"
  proof -
    assume "e \<in> set (ids F)"
    with assms(2) have "e < w" by blast
    then have "e \<notin> set (layerIds w las)" "w \<notin> set (layerIds w las)" "w \<noteq> e"
      using layerIds_gt [of e w las] layerIds_gt [of w w las] by auto
    then show ?thesis using distinct_layerIds [of w las] by simp
  qed
  moreover have "set (?f e) \<inter> set (ids F) \<subseteq> {e}"
    using assms(2) layerIds_gt [of _ w las] by fastforce
  ultimately have "distinct (concat (map (\<lambda>i. if i = e then ?f i else [i]) (ids F)))"
  proof (cases "e \<in> set (ids F)")
    case True
    assume a: "e \<in> set (ids F) \<Longrightarrow> distinct (?f e)" "set (?f e) \<inter> set (ids F) \<subseteq> {e}"
    from a(1) [OF True] a(2) assms(1) show ?thesis
      by (intro distinct_concat_map)
  next
    case False
    then show ?thesis using assms(1) concat_map_id [OF False, of ?f] by simp
  qed
  then show ?thesis unfolding ids_wrapF [OF assms(1)] .
qed

lemma lookup_sub_ids: "lookup x F = Some n \<Longrightarrow> set (ids (childNodes n)) \<subseteq> set (ids F)"
  by (induction x F rule: lookup.induct) (auto split: option.splits if_splits)

lemma wrapN_notin: "e \<notin> set (ids (childNodes n)) \<Longrightarrow> wrapN e w wa las n = n"
  by (simp add: wrapN_def wrapF_notin)

lemma lookup_wrapF:
  "distinct (ids F) \<Longrightarrow> \<forall>i \<in> set (ids F). i < w \<Longrightarrow> x < w \<Longrightarrow>
   lookup x (wrapF e w wa las F) = map_option (wrapN e w wa las) (lookup x F)"
proof (induction F rule: nodes.induct)
  case 1
  then show ?case by simp
next
  case (2 j a ks ts)
  show ?case
  proof (cases "e = j")
    case True
    from "2.prems" True have eks: "e \<notin> set (ids ks)" and ets: "e \<notin> set (ids ts)" by auto
    have xl: "lookup x (leaves (Suc w) las) = None"
      using "2.prems"(3) layerIds_gt [of x w las] by (auto simp: lookup_None_iff ids_layers)
    have sub: "\<And>F n. lookup x F = Some n \<Longrightarrow> e \<notin> set (ids F) \<Longrightarrow> wrapN e w wa las n = n"
      using lookup_sub_ids wrapN_notin by blast
    from "2.prems"(3) have xw: "x \<noteq> w" by simp
    have sk: "map_option (wrapN e w wa las) (lookup x ks) = lookup x ks"
      using sub [of ks] eks by (cases "lookup x ks") auto
    have st: "map_option (wrapN e w wa las) (lookup x ts) = lookup x ts"
      using sub [of ts] ets by (cases "lookup x ts") auto
    show ?thesis
    proof (cases "x = j")
      case True
      with \<open>e = j\<close> eks xw xl show ?thesis
        by (simp add: wrapF_Cons lookup_append wrapN_def wrapF_notin)
    next
      case False
      have "lookup x (wrapF e w wa las (Node j a ks # ts)) =
            (case lookup x ks of Some n \<Rightarrow> Some n | None \<Rightarrow> lookup x ts)"
        using \<open>e = j\<close> False xw xl by (simp add: wrapF_Cons lookup_append split: option.splits)
      also have "\<dots> = map_option (wrapN e w wa las) (lookup x (Node j a ks # ts))"
        using False sk st by (cases "lookup x ks") auto
      finally show ?thesis .
    qed
  next
    case False
    from "2.prems" have "distinct (ids ks)" "distinct (ids ts)"
      "\<forall>i \<in> set (ids ks). i < w" "\<forall>i \<in> set (ids ts). i < w" by auto
    with "2.IH" "2.prems"(3)
    have K: "lookup x (wrapF e w wa las ks) = map_option (wrapN e w wa las) (lookup x ks)"
      and T: "lookup x (wrapF e w wa las ts) = map_option (wrapN e w wa las) (lookup x ts)"
      by auto
    show ?thesis
    proof (cases "x = j")
      case True
      with False show ?thesis by (simp add: wrapF_Cons wrapN_def)
    next
      case xj: False
      show ?thesis
        using False xj K T by (cases "lookup x ks") (simp_all add: wrapF_Cons)
    qed
  qed
qed

lemma idents_wrapF:
  "distinct (idents ks) \<Longrightarrow>
   idents (wrapF e w wa las ks) = map (\<lambda>c. if c = e then w else c) (idents ks)"
proof (induction ks)
  case Nil
  then show ?case by simp
next
  case (Cons k ks)
  obtain j a cs where k: "k = Node j a cs" by (cases k)
  show ?case
  proof (cases "e = j")
    case True
    with Cons.prems k have "e \<notin> set (idents ks)" by auto
    then have "map (\<lambda>c. if c = e then w else c) (idents ks) = idents ks"
      by (induction ks) auto
    with True k show ?thesis by (simp add: wrapF_Cons)
  next
    case False
    with Cons k show ?thesis by (simp add: wrapF_Cons)
  qed
qed

lemma distinct_idents: "distinct (ids ks) \<Longrightarrow> distinct (idents ks)"
  by (induction ks rule: nodes.induct) (use idents_subset in auto)

lemma mem_map_subst:
  "x \<in> (\<lambda>c. if c = e then w else c) ` S \<longleftrightarrow> (x = w \<and> e \<in> S) \<or> (x \<noteq> e \<and> x \<in> S)"
  by auto

lemma parentOf_Cons_None:
  "x \<notin> set (ids ks) \<Longrightarrow> parentOf x (Node j a ks # ts) = parentOf x ts"
  using idents_subset [of ks] by (auto simp: parentOf_notin)

lemma notin_idents: "y \<notin> set (ids ks) \<Longrightarrow> y \<notin> set (idents ks)"
  using idents_subset [of ks] by auto

lemma parentOf_wrapF_root:
  assumes "e \<notin> set (ids ks)" "e \<notin> set (ids ts)" "w \<notin> set (ids ks)" "w \<notin> set (ids ts)"
    and "e < w"
    and "x \<in> set (layerIds w las) \<Longrightarrow> x \<notin> set (ids ks) \<and> x \<notin> set (ids ts)"
  shows "parentOf x (Node w wa (leaves (Suc w) las @ [Node e a ks]) # ts) =
     (if x = e \<or> x \<in> set (layerIds w las) then Some w
      else if x = w then parentOf e (Node e a ks # ts) else parentOf x (Node e a ks # ts))"
proof -
  have B: "parentOf e (Node e a ks # ts) = None"
    using notin_idents [OF assms(1)] assms(1,2) by (simp add: parentOf_notin)
  have I: "set (idents (leaves (Suc w) las)) = set (layerIds w las)"
    by (simp add: idents_layers)
  have L: "parentOf x (Node w wa (leaves (Suc w) las @ [Node e a ks]) # ts) =
      (if x \<in> set (layerIds w las) \<or> x = e then Some w
       else parentOf x (Node e a ks # ts))"
    by (simp add: I parentOf_append parentOf_leaves split: option.splits)
  have W: "parentOf w (Node e a ks # ts) = None"
    using notin_idents [OF assms(3)] assms(3,4) by (simp add: parentOf_notin)
  show ?thesis unfolding L using B W by auto
qed

lemma parentOf_wrapF:
  "distinct (ids F) \<Longrightarrow> \<forall>i \<in> set (ids F). i < w \<Longrightarrow> e \<in> set (ids F) \<Longrightarrow>
   parentOf x (wrapF e w wa las F) =
     (if x = e \<or> x \<in> set (layerIds w las) then Some w
      else if x = w then parentOf e F else parentOf x F)"
proof (induction F arbitrary: x rule: nodes.induct)
  case 1
  then show ?case by simp
next
  case (2 j a ks ts)
  from "2.prems" have dk: "distinct (ids ks)" and dt: "distinct (ids ts)"
    and lk: "\<forall>i \<in> set (ids ks). i < w" and lt: "\<forall>i \<in> set (ids ts). i < w" and jw: "j < w"
    by auto
  from lk lt have wk: "w \<notin> set (ids ks)" and wt: "w \<notin> set (ids ts)" by auto
  have newk: "x \<in> set (layerIds w las) \<Longrightarrow> x \<notin> set (ids ks) \<and> x \<notin> set (ids ts)"
    using lk lt layerIds_gt [of x w las] by fastforce
  have ew: "e \<noteq> w" using "2.prems"(2,3) by auto
  show ?case
  proof (cases "e = j")
    case True
    with "2.prems" have eks: "e \<notin> set (ids ks)" and ets: "e \<notin> set (ids ts)" by auto
    have G: "wrapF e w wa las (Node j a ks # ts) =
               Node w wa (leaves (Suc w) las @ [Node e a ks]) # ts"
      using True by (simp add: wrapF_Cons)
    show ?thesis
      unfolding G using parentOf_wrapF_root [OF eks ets wk wt _ newk, where wa = wa and a = a] jw True by simp
  next
    case False
    note ej = False
    have G: "wrapF e w wa las (Node j a ks # ts) =
               Node j a (wrapF e w wa las ks) # wrapF e w wa las ts"
      using ej by (simp add: wrapF_Cons)
    have idk: "set (idents (wrapF e w wa las ks)) = (\<lambda>c. if c = e then w else c) ` set (idents ks)"
      using dk by (simp add: idents_wrapF distinct_idents)
    have ein: "e \<in> set (ids ks) \<or> e \<in> set (ids ts)" using "2.prems"(3) ej by auto
    have L: "parentOf x (wrapF e w wa las (Node j a ks # ts)) =
       (if (x = w \<and> e \<in> set (idents ks)) \<or> (x \<noteq> e \<and> x \<in> set (idents ks)) then Some j
        else case parentOf x (wrapF e w wa las ks) of Some p \<Rightarrow> Some p
             | None \<Rightarrow> parentOf x (wrapF e w wa las ts))"
      unfolding G parentOf.simps idk mem_map_subst ..
    have R: "\<And>y. parentOf y (Node j a ks # ts) =
       (if y \<in> set (idents ks) then Some j
        else case parentOf y ks of Some p \<Rightarrow> Some p | None \<Rightarrow> parentOf y ts)"
      by simp
    have wi: "w \<notin> set (idents ks)" using wk by (rule notin_idents)
    have pwk: "parentOf w ks = None" and pwt: "parentOf w ts = None"
      using wk wt by (simp_all add: parentOf_notin)
    consider (a) "x = e" | (a') "x \<in> set (layerIds w las)" | (b) "x = w"
      | (c) "x \<noteq> e" "x \<notin> set (layerIds w las)" "x \<noteq> w" by blast
    then show ?thesis
    proof cases
      case a
      show ?thesis
      proof (cases "e \<in> set (ids ks)")
        case True
        with "2.IH"(1) [OF dk lk] have "parentOf e (wrapF e w wa las ks) = Some w" by simp
        then show ?thesis unfolding L using a ew by simp
      next
        case False
        with ein have et: "e \<in> set (ids ts)" by simp
        with "2.IH"(2) [OF dt lt] have "parentOf e (wrapF e w wa las ts) = Some w" by simp
        moreover have "parentOf e (wrapF e w wa las ks) = None"
          using False by (simp add: wrapF_notin parentOf_notin)
        ultimately show ?thesis unfolding L using a ew by simp
      qed
    next
      case a'
      have "e < w" using "2.prems"(2,3) by blast
      with a' have xw: "x \<noteq> w" "x \<noteq> e" using layerIds_gt [of x w las] by auto
      from a' newk have xi: "x \<notin> set (idents ks)" using notin_idents by blast
      show ?thesis
      proof (cases "e \<in> set (ids ks)")
        case True
        with "2.IH"(1) [OF dk lk] a' have "parentOf x (wrapF e w wa las ks) = Some w" by simp
        then show ?thesis unfolding L using a' xw xi by simp
      next
        case False
        with ein have et: "e \<in> set (ids ts)" by simp
        with "2.IH"(2) [OF dt lt] a' have "parentOf x (wrapF e w wa las ts) = Some w" by simp
        moreover have "parentOf x (wrapF e w wa las ks) = None"
          using False a' newk by (simp add: wrapF_notin parentOf_notin)
        ultimately show ?thesis unfolding L using a' xw xi by simp
      qed
    next
      case b
      have nw: "w \<notin> set (layerIds w las)" using layerIds_gt [of w w las] by auto
      show ?thesis
      proof (cases "e \<in> set (ids ks)")
        case True
        then have et: "e \<notin> set (ids ts)" using "2.prems"(1) by auto
        from "2.IH"(1) [OF dk lk True] ew nw
        have "parentOf w (wrapF e w wa las ks) = parentOf e ks" by simp
        moreover have "parentOf w (wrapF e w wa las ts) = parentOf e ts"
          using et pwt by (simp add: wrapF_notin parentOf_notin)
        ultimately show ?thesis unfolding L R using b ew nw wi by (simp cong: option.case_cong)
      next
        case False
        with ein have et: "e \<in> set (ids ts)" by simp
        from "2.IH"(2) [OF dt lt et] ew nw
        have "parentOf w (wrapF e w wa las ts) = parentOf e ts" by simp
        moreover have "parentOf w (wrapF e w wa las ks) = parentOf e ks"
          using False pwk by (simp add: wrapF_notin parentOf_notin)
        ultimately show ?thesis unfolding L R using b ew nw wi by (simp cong: option.case_cong)
      qed
    next
      case c
      have K: "parentOf x (wrapF e w wa las ks) = parentOf x ks"
      proof (cases "e \<in> set (ids ks)")
        case True
        from "2.IH"(1) [OF dk lk True] c show ?thesis by auto
      next
        case False
        then show ?thesis by (simp add: wrapF_notin)
      qed
      have T: "parentOf x (wrapF e w wa las ts) = parentOf x ts"
      proof (cases "e \<in> set (ids ts)")
        case True
        from "2.IH"(2) [OF dt lt True] c show ?thesis by auto
      next
        case False
        then show ?thesis by (simp add: wrapF_notin)
      qed
      show ?thesis unfolding L R K T using c by simp
    qed
  qed
qed

lemma lookup_Cons_notin:
  "x \<notin> set (ids ts) \<Longrightarrow> lookup x (n # ts) = lookup x [n]"
proof -
  assume "x \<notin> set (ids ts)"
  then have "lookup x ts = None" by (simp add: lookup_None_iff)
  then show ?thesis by (cases n) (simp split: option.splits)
qed

lemma lookup_wrapF_new:
  "distinct (ids F) \<Longrightarrow> lookup e F = Some E \<Longrightarrow> x \<notin> set (ids F) \<Longrightarrow>
   lookup x (wrapF e w wa las F) = lookup x [Node w wa (leaves (Suc w) las @ [E])]"
proof (induction F rule: nodes.induct)
  case 1
  then show ?case by simp
next
  case (2 j a ks ts)
  from "2.prems" have xj: "x \<noteq> j" and xk: "x \<notin> set (ids ks)" and xt: "x \<notin> set (ids ts)"
    and dk: "distinct (ids ks)" and dt: "distinct (ids ts)" by auto
  show ?case
  proof (cases "e = j")
    case True
    with "2.prems" have E: "E = Node j a ks" by simp
    show ?thesis
      using True E lookup_Cons_notin [OF xt] by (simp add: wrapF_Cons del: lookup.simps)
  next
    case False
    note ej = False
    show ?thesis
    proof (cases "lookup e ks")
      case (Some n)
      with ej "2.prems" have "lookup e ks = Some E" by simp
      from "2.IH"(1) [OF dk this xk]
      have K: "lookup x (wrapF e w wa las ks) = lookup x [Node w wa (leaves (Suc w) las @ [E])]" .
      from Some have "e \<in> set (ids ks)" by (rule lookup_in_ids)
      with "2.prems"(1) have "e \<notin> set (ids ts)" by auto
      then have T: "lookup x (wrapF e w wa las ts) = None"
        using xt by (simp add: wrapF_notin lookup_None_iff)
      show ?thesis
        using ej xj K T by (simp add: wrapF_Cons split: option.splits)
    next
      case None
      with ej "2.prems" have "lookup e ts = Some E" by simp
      from "2.IH"(2) [OF dt this xt]
      have T: "lookup x (wrapF e w wa las ts) = lookup x [Node w wa (leaves (Suc w) las @ [E])]" .
      from None have "e \<notin> set (ids ks)" by (simp add: lookup_None_iff)
      then have K: "lookup x (wrapF e w wa las ks) = None"
        using xk by (simp add: wrapF_notin lookup_None_iff)
      show ?thesis
        using ej xj K T by (simp add: wrapF_Cons)
    qed
  qed
qed

lemma chain_wrapF_aux:
  assumes d: "distinct (ids F)" and lt: "\<forall>i \<in> set (ids F). i < w" and e: "e \<in> set (ids F)"
  shows "chain x F = cs \<Longrightarrow> x < w \<Longrightarrow>
         chain x (wrapF e w wa las F) = concat (map (\<lambda>i. if i = e then [e, w] else [i]) cs)"
proof (induction cs arbitrary: x)
  case Nil
  then have "x \<notin> set (ids F)" by (simp add: chain_Nil_iff)
  with Nil.prems(2) have "x \<notin> set (ids (wrapF e w wa las F))"
    using set_ids_wrapF [OF d e, of w wa las] layerIds_gt [of x w las] by auto
  then show ?case by (simp add: chain_notin)
next
  case (Cons c cs)
  let ?G = "wrapF e w wa las F"
  have dG: "distinct (ids ?G)" using d lt by (rule distinct_ids_wrapF)
  have inG: "set (ids ?G) = set (ids F) \<union> {w} \<union> set (layerIds w las)"
    using d e by (rule set_ids_wrapF)
  from Cons.prems(1) have xF: "x \<in> set (ids F)" by (rule chain_Cons_in)
  have xl: "x \<notin> set (layerIds w las)" "x \<noteq> w"
    using Cons.prems(2) layerIds_gt [of x w las] by auto
  have ew: "e \<noteq> w" "e \<notin> set (layerIds w las)"
    using e lt layerIds_gt [of e w las] by auto
  have wl: "w \<notin> set (layerIds w las)" using layerIds_gt [of w w las] by auto
  have P: "\<And>y. parentOf y ?G =
     (if y = e \<or> y \<in> set (layerIds w las) then Some w
      else if y = w then parentOf e F else parentOf y F)"
    using d lt e by (rule parentOf_wrapF)
  show ?case
  proof (cases "parentOf x F")
    case None
    with xF d have cx: "chain x F = [x]" by (simp add: chain_root)
    with Cons.prems(1) have c: "c = x" "cs = []" by auto
    show ?thesis
    proof (cases "x = e")
      case True
      have "parentOf e ?G = Some w" using P [of e] by simp
      then have "chain e ?G = e # chain w ?G" using dG by (rule chain_parent)
      moreover have "parentOf w ?G = None" using P [of w] ew wl None True by simp
      then have "chain w ?G = [w]" using dG inG by (simp add: chain_root)
      ultimately show ?thesis using True c by simp
    next
      case False
      have "parentOf x ?G = None" using P [of x] False xl None by simp
      then have "chain x ?G = [x]" using dG inG xF by (simp add: chain_root)
      then show ?thesis using False c by simp
    qed
  next
    case (Some p)
    with d have cx: "chain x F = x # chain p F" by (simp add: chain_parent)
    with Cons.prems(1) have c: "c = x" "chain p F = cs" by auto
    from Some have "p \<in> set (ids F)" using parentOf_in_ids by blast
    with lt have "p < w" by blast
    from Cons.IH [OF c(2) this]
    have IH: "chain p ?G = concat (map (\<lambda>i. if i = e then [e, w] else [i]) cs)" .
    show ?thesis
    proof (cases "x = e")
      case True
      have "parentOf e ?G = Some w" using P [of e] by simp
      then have "chain e ?G = e # chain w ?G" using dG by (rule chain_parent)
      moreover have "parentOf w ?G = Some p" using P [of w] ew wl Some True by simp
      then have "chain w ?G = w # chain p ?G" using dG by (rule chain_parent)
      ultimately show ?thesis using True c IH by simp
    next
      case False
      have "parentOf x ?G = Some p" using P [of x] False xl Some by simp
      then have "chain x ?G = x # chain p ?G" using dG by (rule chain_parent)
      then show ?thesis using False c IH by simp
    qed
  qed
qed

lemma chain_wrapF:
  "distinct (ids F) \<Longrightarrow> \<forall>i \<in> set (ids F). i < w \<Longrightarrow> e \<in> set (ids F) \<Longrightarrow> x < w \<Longrightarrow>
   chain x (wrapF e w wa las F) =
     concat (map (\<lambda>i. if i = e then [e, w] else [i]) (chain x F))"
  by (rule chain_wrapF_aux) simp_all

section \<open>The DOM operations of a callback compute a wrapped forest\<close>

lemma modify_append_notin: "i \<notin> set (ids A) \<Longrightarrow> modify i f (A @ B) = A @ modify i f B"
  by (induction i f A rule: modify.induct) (auto simp: modify_notin)

lemma place_before_modify:
  "e \<in> set (idents ks) \<Longrightarrow> distinct (ids ks) \<Longrightarrow>
   place_before W e ks = modify e (\<lambda>s. [W, s]) ks"
proof (induction ks)
  case Nil
  then show ?case by simp
next
  case (Cons k ks)
  obtain j a cs where k: "k = Node j a cs" by (cases k)
  show ?case
  proof (cases "j = e")
    case True
    with k show ?thesis by simp
  next
    case False
    with Cons.prems k have "e \<in> set (idents ks)" by simp
    then have "e \<in> set (ids ks)" using idents_subset by blast
    with Cons.prems(2) k have "e \<notin> set (ids cs)" by auto
    then have "modify e (\<lambda>s. [W, s]) cs = cs" by (rule modify_notin)
    moreover have "place_before W e ks = modify e (\<lambda>s. [W, s]) ks"
      using Cons.IH \<open>e \<in> set (idents ks)\<close> Cons.prems(2) k by simp
    ultimately show ?thesis using False k by simp
  qed
qed

lemma set_children_Nil [simp]: "set_children p g [] = []"
  by (simp add: set_children_def)

lemma set_children_Cons:
  "set_children p g (Node j a ks # ts) =
     (if p = j then Node j a (g ks) # ts
      else Node j a (set_children p g ks) # set_children p g ts)"
  by (simp add: set_children_def)

lemma set_children_notin: "p \<notin> set (ids F) \<Longrightarrow> set_children p g F = F"
  by (simp add: set_children_def modify_notin)

lemma insert_sibling:
  "parentOf e F = Some p \<Longrightarrow> distinct (ids F) \<Longrightarrow>
   set_children p (place_before W e) F = modify e (\<lambda>s. [W, s]) F"
proof (induction F rule: nodes.induct)
  case 1
  then show ?case by simp
next
  case (2 j a ks ts)
  from "2.prems" have dk: "distinct (ids ks)" and dt: "distinct (ids ts)" by auto
  show ?case
  proof (cases "e \<in> set (idents ks)")
    case True
    with "2.prems" have pj: "p = j" by simp
    from True have ek: "e \<in> set (ids ks)" using idents_subset by blast
    with "2.prems"(2) have ej: "e \<noteq> j" and et: "e \<notin> set (ids ts)" by auto
    have "place_before W e ks = modify e (\<lambda>s. [W, s]) ks"
      using True dk by (rule place_before_modify)
    then show ?thesis using pj ej et by (simp add: set_children_Cons modify_notin)
  next
    case False
    note ni = False
    show ?thesis
    proof (cases "parentOf e ks")
      case (Some q)
      with ni "2.prems" have pk: "parentOf e ks = Some p" by simp
      then have "e \<in> set (ids ks)" "p \<in> set (ids ks)" using parentOf_in_ids by blast+
      with "2.prems"(2) have ne: "e \<noteq> j" "p \<noteq> j" "e \<notin> set (ids ts)" "p \<notin> set (ids ts)" by auto
      from "2.IH"(1) [OF pk dk] ne show ?thesis
        by (simp add: set_children_Cons modify_notin set_children_notin)
    next
      case None
      with ni "2.prems" have pt: "parentOf e ts = Some p" by simp
      then have "e \<in> set (ids ts)" "p \<in> set (ids ts)" using parentOf_in_ids by blast+
      with "2.prems"(2) have ne: "e \<noteq> j" "p \<noteq> j" "e \<notin> set (ids ks)" "p \<notin> set (ids ks)" by auto
      from "2.IH"(2) [OF pt dt] ne show ?thesis
        by (simp add: set_children_Cons modify_notin set_children_notin)
    qed
  qed
qed

lemma modify_sibling:
  "w \<notin> set (ids F) \<Longrightarrow>
   modify w h (modify e (\<lambda>s. Node w wa wk # g s) F) = modify e (\<lambda>s. h (Node w wa wk) @ g s) F"
  by (induction F rule: nodes.induct) auto

lemma remove_wrapped:
  "e \<noteq> w \<Longrightarrow> e \<notin> set (ids wk) \<Longrightarrow>
   remove e (modify e (\<lambda>s. [Node w wa wk, s]) F) = modify e (\<lambda>s. [Node w wa wk]) F"
  unfolding remove_def
  by (induction F rule: nodes.induct) (auto simp: modify_notin)

lemma modify_subtree:
  "lookup e F = Some E \<Longrightarrow> distinct (ids F) \<Longrightarrow> modify e f F = modify e (\<lambda>s. f E) F"
proof (induction F rule: nodes.induct)
  case 1
  then show ?case by simp
next
  case (2 j a ks ts)
  from "2.prems" have dk: "distinct (ids ks)" and dt: "distinct (ids ts)" by auto
  show ?case
  proof (cases "e = j")
    case True
    with "2.prems" show ?thesis by auto
  next
    case False
    show ?thesis
    proof (cases "lookup e ks")
      case (Some n)
      with False "2.prems" have l: "lookup e ks = Some E" by simp
      then have "e \<in> set (ids ks)" by (rule lookup_in_ids)
      with "2.prems"(2) have "e \<notin> set (ids ts)" by auto
      with "2.IH"(1) [OF l dk] False show ?thesis by (simp add: modify_notin)
    next
      case None
      with False "2.prems" have l: "lookup e ts = Some E" by simp
      from None have "e \<notin> set (ids ks)" by (simp add: lookup_None_iff)
      with "2.IH"(2) [OF l dt] False show ?thesis by (simp add: modify_notin)
    qed
  qed
qed

lemma lookup_sibling_new:
  "w \<notin> set (ids F) \<Longrightarrow> e \<in> set (ids F) \<Longrightarrow>
   lookup w (modify e (\<lambda>s. Node w wa wk # g s) F) = Some (Node w wa wk)"
proof (induction F rule: nodes.induct)
  case 1
  then show ?case by simp
next
  case (2 j a ks ts)
  from "2.prems" have wj: "w \<noteq> j" and wk': "w \<notin> set (ids ks)" and wt: "w \<notin> set (ids ts)" by auto
  show ?case
  proof (cases "e = j")
    case True
    then show ?thesis by simp
  next
    case False
    show ?thesis
    proof (cases "e \<in> set (ids ks)")
      case True
      from "2.IH"(1) [OF wk' True] False wj show ?thesis by simp
    next
      case nk: False
      with False "2.prems" have "e \<in> set (ids ts)" by auto
      from "2.IH"(2) [OF wt this] False wj nk wk' show ?thesis
        by (simp add: modify_notin lookup_None_iff [THEN iffD2])
    qed
  qed
qed

lemma lookup_sibling_old:
  "e \<noteq> w \<Longrightarrow> e \<notin> set (ids wk) \<Longrightarrow>
   lookup e (modify e (\<lambda>s. [Node w wa wk, s]) F) = lookup e F"
  by (induction F rule: nodes.induct)
     (auto simp: lookup_None_iff [THEN iffD2] cong: option.case_cong)

lemma chain_sibling:
  "e \<noteq> w \<Longrightarrow> e \<notin> set (chain w (modify e (\<lambda>s. [Node w wa wk, s]) F))"
  by (induction F rule: nodes.induct) (auto split: list.splits)

lemma ids_sibling:
  "set (ids (modify e (\<lambda>s. [Node w wa wk, s]) F)) \<subseteq> set (ids F) \<union> {w} \<union> set (ids wk)"
  by (induction F rule: nodes.induct) auto

lemma parentOf_lookup:
  "parentOf e F = Some p \<Longrightarrow> distinct (ids F) \<Longrightarrow>
   \<exists>P. lookup p F = Some P \<and> e \<in> set (idents (childNodes P))"
proof (induction e F rule: parentOf.induct)
  case (1 i)
  then show ?case by simp
next
  case (2 i j a ks ts)
  from "2.prems" have dk: "distinct (ids ks)" and dt: "distinct (ids ts)" by auto
  show ?case
  proof (cases "i \<in> set (idents ks)")
    case True
    with "2.prems" show ?thesis by auto
  next
    case False
    show ?thesis
    proof (cases "parentOf i ks")
      case (Some q)
      with False "2.prems" have pk: "parentOf i ks = Some p" by simp
      from "2.IH"(1) [OF False pk dk] obtain P where
        P: "lookup p ks = Some P" "i \<in> set (idents (childNodes P))" by auto
      from pk have "p \<in> set (ids ks)" using parentOf_in_ids by blast
      with "2.prems"(2) have "p \<noteq> j" by auto
      with P show ?thesis by simp
    next
      case None
      with False "2.prems" have pt: "parentOf i ts = Some p" by simp
      from "2.IH"(2) [OF False None pt dt] obtain P where
        P: "lookup p ts = Some P" "i \<in> set (idents (childNodes P))" by auto
      from pt have "p \<in> set (ids ts)" using parentOf_in_ids by blast
      with "2.prems"(2) have "p \<noteq> j" "p \<notin> set (ids ks)" by auto
      then have "lookup p ks = None" by (simp add: lookup_None_iff)
      with P \<open>p \<noteq> j\<close> show ?thesis by simp
    qed
  qed
qed

lemma lookup_skip: "x \<notin> set (ids A) \<Longrightarrow> lookup x (A @ B) = lookup x B"
  by (simp add: lookup_append lookup_None_iff [THEN iffD2])

lemma chain_skip: "x \<notin> set (ids A) \<Longrightarrow> chain x (A @ B) = chain x B"
  by (simp add: chain_append)


lemma insertBefore_detached:
  assumes f: "forest st = Pre @ Node w wa [] # F"
    and pre: "set (ids Pre) \<inter> (set (ids F) \<union> {w}) = {}"
    and d: "distinct (ids F)" and w: "w \<notin> set (ids F)"
    and par: "parentOf e F = Some p"
    and P: "lookup p F = Some P" "nodeKind (attrs P) = Element"
    and wa: "nodeKind wa = Element"
  shows "insertBefore p w e st =
           Inr (st\<lparr>forest := Pre @ modify e (\<lambda>s. [Node w wa [], s]) F\<rparr>)"
proof -
  from par have pin: "p \<in> set (ids F)" "e \<in> set (ids F)" using parentOf_in_ids by blast+
  with pre w have pn: "p \<notin> set (ids Pre)" "p \<noteq> w" "w \<notin> set (ids Pre)" by auto
  have lp: "lookup p (forest st) = Some P"
    using pn P(1) by (simp add: f lookup_skip)
  have lw: "lookup w (forest st) = Some (Node w wa [])"
    using pn by (simp add: f lookup_skip)
  have ch: "chain p (forest st) = chain p F"
    using pn by (simp add: f chain_skip)
  have "w \<notin> set (chain p F)" using w chain_subset [of p F] by auto
  then have ne: "\<not> insertion_error P (Node w wa []) (forest st)"
    using P wa lookup_ident [OF P(1)] by (simp add: insertion_error_def ch)
  from parentOf_lookup [OF par d] P(1) have ec: "e \<in> set (idents (childNodes P))" by auto
  have rm: "remove w (forest st) = Pre @ F"
    using pn by (simp add: f remove_def modify_append_notin)
  have "set_children p (place_before (Node w wa []) e) (Pre @ F) =
          Pre @ set_children p (place_before (Node w wa []) e) F"
    using pn by (simp add: set_children_def modify_append_notin)
  also have "\<dots> = Pre @ modify e (\<lambda>s. [Node w wa [], s]) F"
    using par d by (simp add: insert_sibling)
  finally show ?thesis
    using lp lw ne ec rm by (simp add: insertBefore_def)
qed

lemma appendChild_detached:
  assumes f: "forest st = Pre @ Node x xa [] # modify e (\<lambda>s. [Node w wa wk, s]) F"
    and pre: "set (ids Pre) \<inter> (set (ids F) \<union> {w, x} \<union> set (ids wk)) = {}"
    and x: "x \<notin> set (ids F)" "x \<noteq> w" "x \<notin> set (ids wk)"
    and w: "w \<notin> set (ids F)" and e: "e \<in> set (ids F)"
    and wa: "nodeKind wa = Element" and xa: "nodeKind xa = Element"
  shows "appendChild w x st =
           Inr (st\<lparr>forest := Pre @ modify e (\<lambda>s. [Node w wa (wk @ [Node x xa []]), s]) F\<rparr>)"
proof -
  let ?F1 = "modify e (\<lambda>s. [Node w wa wk, s]) F"
  from pre have pn: "w \<notin> set (ids Pre)" "x \<notin> set (ids Pre)" by auto
  have xF1: "x \<notin> set (ids ?F1)" using ids_sibling [of e w wa wk F] x by auto
  have lw: "lookup w (forest st) = Some (Node w wa wk)"
    using pn x(2) w e by (simp add: f lookup_skip lookup_sibling_new)
  have lx: "lookup x (forest st) = Some (Node x xa [])"
    using pn by (simp add: f lookup_skip)
  have ch: "chain w (forest st) = chain w ?F1"
    using pn x(2) by (simp add: f chain_skip)
  have "x \<notin> set (chain w ?F1)" using xF1 chain_subset [of w ?F1] by auto
  then have ne: "\<not> insertion_error (Node w wa wk) (Node x xa []) (forest st)"
    using wa xa by (simp add: insertion_error_def ch)
  have rm: "remove x (forest st) = Pre @ ?F1"
    using pn by (simp add: f remove_def modify_append_notin)
  have "set_children w (\<lambda>ks. ks @ [Node x xa []]) (Pre @ ?F1) =
          Pre @ modify w (\<lambda>n. [Node (ident n) (attrs n) (childNodes n @ [Node x xa []])]) ?F1"
    using pn by (simp add: set_children_def modify_append_notin)
  also have "\<dots> = Pre @ modify e (\<lambda>s. [Node w wa (wk @ [Node x xa []]), s]) F"
    using w by (simp add: modify_sibling)
  finally show ?thesis
    using lw lx ne rm by (simp add: appendChild_def)
qed

lemma appendChild_target:
  assumes f: "forest st = modify e (\<lambda>s. [Node w wa wk, s]) F"
    and d: "distinct (ids F)" and w: "w \<notin> set (ids F)"
    and E: "lookup e F = Some E" "nodeKind (attrs E) = Element"
    and ewk: "e \<notin> set (ids wk)"
    and wa: "nodeKind wa = Element"
  shows "appendChild w e st = Inr (st\<lparr>forest := modify e (\<lambda>s. [Node w wa (wk @ [s])]) F\<rparr>)"
proof -
  let ?F1 = "modify e (\<lambda>s. [Node w wa wk, s]) F"
  from E(1) have e: "e \<in> set (ids F)" by (rule lookup_in_ids)
  with w have ew: "e \<noteq> w" by auto
  have lw: "lookup w (forest st) = Some (Node w wa wk)"
    using w e by (simp add: f lookup_sibling_new)
  have le: "lookup e (forest st) = Some E"
    using ew ewk E(1) by (simp add: f lookup_sibling_old)
  have "e \<notin> set (chain w ?F1)" using ew by (rule chain_sibling)
  then have ne: "\<not> insertion_error (Node w wa wk) E (forest st)"
    using wa E(2) lookup_ident [OF E(1)] by (simp add: insertion_error_def f)
  have rm: "remove e (forest st) = modify e (\<lambda>s. [Node w wa wk]) F"
    using ew ewk by (simp add: f remove_wrapped)
  have "set_children w (\<lambda>ks. ks @ [E]) (modify e (\<lambda>s. [Node w wa wk]) F) =
          modify e (\<lambda>s. [Node w wa (wk @ [E])]) F"
    using w modify_sibling [of w F "\<lambda>n. [Node (ident n) (attrs n) (childNodes n @ [E])]" e wa wk "\<lambda>s. []"]
    by (simp add: set_children_def)
  also have "\<dots> = modify e (\<lambda>s. [Node w wa (wk @ [s])]) F"
    using modify_subtree [OF E(1) d, of "\<lambda>s. [Node w wa (wk @ [s])]"] by simp
  finally show ?thesis
    using lw le ne rm by (simp add: appendChild_def)
qed

lemma create_div:
  "set_className (nextId st) c (snd (createElement ''div'' st)) =
     \<lparr>forest = Node (nextId st) (div_with c) [] # forest st, nextId = Suc (nextId st)\<rparr>"
  by (simp add: createElement_def set_className_def set_attrs_def div_with_def)

lemma createElement_fst: "fst (createElement t st) = nextId st"
  by (simp add: createElement_def)

lemma placedD:
  assumes "placed e st"
  obtains p P E where "parentOf e (forest st) = Some p" "lookup p (forest st) = Some P"
    "nodeKind (attrs P) = Element" "lookup e (forest st) = Some E" "nodeKind (attrs E) = Element"
  using assms
  by (auto simp: placed_def is_element_def attrsOf_def parentNode_def map_of_nodes
           split: option.splits)

lemma andThen_Inr: "andThen (Inr s) f = f s"
  by (simp add: andThen_def)


lemma wrap_two:
  assumes wf: "wf st" and pl: "placed e st"
    and f: "forest st1 = Node (nextId st) wa [] # forest st"
    and wa: "nodeKind wa = Element"
    and par: "parentNode e st1 = Some p"
  shows "andThen (insertBefore p (nextId st) e st1) (appendChild (nextId st) e) =
           Inr (st1\<lparr>forest := wrapF e (nextId st) wa [] (forest st)\<rparr>)"
proof -
  let ?n = "nextId st" and ?F = "forest st"
  from pl obtain p' P E where p': "parentOf e ?F = Some p'" "lookup p' ?F = Some P"
    "nodeKind (attrs P) = Element" "lookup e ?F = Some E" "nodeKind (attrs E) = Element"
    by (rule placedD)
  from wf have d: "distinct (ids ?F)" and n: "?n \<notin> set (ids ?F)" by (auto simp: wf_def)
  from p'(1) have ein: "e \<in> set (ids ?F)" using parentOf_in_ids by blast
  have "parentOf e (forest st1) = parentOf e ?F"
    unfolding f using ein n by (auto simp: parentOf_notin)
  with par p'(1) have pp: "p' = p" by (simp add: parentNode_def)
  have i: "insertBefore p ?n e st1 = Inr (st1\<lparr>forest := [] @ modify e (\<lambda>s. [Node ?n wa [], s]) ?F\<rparr>)"
    using p' d n wa f unfolding pp
    by (intro insertBefore_detached [where P = P]) simp_all
  have a: "appendChild ?n e (st1\<lparr>forest := modify e (\<lambda>s. [Node ?n wa [], s]) ?F\<rparr>) =
        Inr (st1\<lparr>forest := modify e (\<lambda>s. [Node ?n wa ([] @ [s])]) ?F\<rparr>)"
    using appendChild_target [where st = "st1\<lparr>forest := modify e (\<lambda>s. [Node ?n wa [], s]) ?F\<rparr>"
        and F = ?F and E = E and e = e and w = ?n and wa = wa and wk = "[]"] d n p'(4,5) wa
    by simp
  show ?thesis using i a by (simp add: andThen_def wrapF_def)
qed

lemma wrap_five:
  assumes wf: "wf st" and pl: "placed e st"
    and f: "forest st4 = Node (Suc (Suc (Suc (nextId st)))) c3 [] # Node (Suc (Suc (nextId st))) c2 []
              # Node (Suc (nextId st)) c1 [] # Node (nextId st) wa [] # forest st"
    and wa: "nodeKind wa = Element" "nodeKind c1 = Element" "nodeKind c2 = Element"
      "nodeKind c3 = Element"
    and par: "parentNode e st4 = Some p"
  shows "andThen (andThen (andThen (andThen
           (insertBefore p (nextId st) e st4)
           (appendChild (nextId st) (Suc (nextId st))))
           (appendChild (nextId st) (Suc (Suc (nextId st)))))
           (appendChild (nextId st) (Suc (Suc (Suc (nextId st))))))
           (appendChild (nextId st) e) =
         Inr (st4\<lparr>forest := wrapF e (nextId st) wa [c1, c2, c3] (forest st)\<rparr>)"
proof -
  let ?n = "nextId st" and ?F = "forest st"
  let ?G = "Node (Suc ?n) c1 []" and ?D = "Node (Suc (Suc ?n)) c2 []"
  let ?B = "Node (Suc (Suc (Suc ?n))) c3 []"
  from pl obtain p' P E where p': "parentOf e ?F = Some p'" "lookup p' ?F = Some P"
    "nodeKind (attrs P) = Element" "lookup e ?F = Some E" "nodeKind (attrs E) = Element"
    by (rule placedD)
  from wf have d: "distinct (ids ?F)" and lt: "\<forall>i \<in> set (ids ?F). i < ?n"
    by (auto simp: wf_def)
  from lt have n: "?n \<notin> set (ids ?F)" "Suc ?n \<notin> set (ids ?F)" "Suc (Suc ?n) \<notin> set (ids ?F)"
    "Suc (Suc (Suc ?n)) \<notin> set (ids ?F)" by auto
  from p'(1) have ein: "e \<in> set (ids ?F)" using parentOf_in_ids by blast
  with lt have en: "e < ?n" by blast
  have "parentOf e (forest st4) = parentOf e ?F"
    unfolding f using en by (auto simp: parentOf_notin)
  with par p'(1) have pp: "p' = p" by (simp add: parentNode_def)
  let ?s1 = "st4\<lparr>forest := [?B, ?D, ?G] @ modify e (\<lambda>s. [Node ?n wa [], s]) ?F\<rparr>"
  let ?s2 = "st4\<lparr>forest := [?B, ?D] @ modify e (\<lambda>s. [Node ?n wa ([] @ [?G]), s]) ?F\<rparr>"
  let ?s3 = "st4\<lparr>forest := [?B] @ modify e (\<lambda>s. [Node ?n wa ([?G] @ [?D]), s]) ?F\<rparr>"
  let ?s4 = "st4\<lparr>forest := [] @ modify e (\<lambda>s. [Node ?n wa ([?G, ?D] @ [?B]), s]) ?F\<rparr>"
  let ?s5 = "st4\<lparr>forest := modify e (\<lambda>s. [Node ?n wa ([?G, ?D, ?B] @ [s])]) ?F\<rparr>"
  have i: "insertBefore p ?n e st4 = Inr ?s1"
    using p' d n wa f en unfolding pp
    by (intro insertBefore_detached [where P = P]) auto
  have a1: "appendChild ?n (Suc ?n) ?s1 = Inr ?s2"
    using appendChild_detached [where st = ?s1 and Pre = "[?B, ?D]" and x = "Suc ?n"
        and xa = c1 and e = e and w = ?n and wa = wa and wk = "[]" and F = ?F] n ein wa
    by simp
  have a2: "appendChild ?n (Suc (Suc ?n)) ?s2 = Inr ?s3"
    using appendChild_detached [where st = ?s2 and Pre = "[?B]" and x = "Suc (Suc ?n)"
        and xa = c2 and e = e and w = ?n and wa = wa and wk = "[?G]" and F = ?F] n ein wa
    by simp
  have a3: "appendChild ?n (Suc (Suc (Suc ?n))) ?s3 = Inr ?s4"
    using appendChild_detached [where st = ?s3 and Pre = "[]" and x = "Suc (Suc (Suc ?n))"
        and xa = c3 and e = e and w = ?n and wa = wa and wk = "[?G, ?D]" and F = ?F] n ein wa
    by simp
  have a4: "appendChild ?n e ?s4 = Inr ?s5"
    using appendChild_target [where st = ?s4 and F = ?F and E = E and e = e and w = ?n
        and wa = wa and wk = "[?G, ?D, ?B]"] d n p'(4,5) wa en
    by simp
  have "Inr ?s5 = Inr (st4\<lparr>forest := wrapF e ?n wa [c1, c2, c3] ?F\<rparr>)"
    by (simp add: wrapF_def)
  then show ?thesis by (simp only: i a1 a2 a3 a4 andThen_Inr)
qed

section \<open>Each callback is one decoration step\<close>

lemma run_forEach:
  "run g ps st = forEach (callback g ps) (querySelectorAll (selectors ps) st) st"
  by (cases ps)
     (simp_all add: decorate_inputs1_def decorate_buttons1_def decorate_inputs2_def
        decorate_buttons2_def)

lemma callback_skips: "skips ps e st \<Longrightarrow> callback g ps e st = Inr st"
  by (cases ps)
     (auto simp: skips_def excluded_def wrap_input1_def wrap_button1_def wrap_input2_def
        wrap_button2_def)

lemma style_width_detached:
  "wf st \<Longrightarrow> e \<in> set (ids (forest st)) \<Longrightarrow>
   style_width e \<lparr>forest = Node (nextId st) a [] # forest st, nextId = k\<rparr> = style_width e st"
  by (auto simp: style_width_def attrsOf_def wf_def)

lemma placed_in: "placed e st \<Longrightarrow> e \<in> set (ids (forest st))"
  by (erule placedD) (rule lookup_in_ids)

lemma kind_div [simp]: "nodeKind (div_with c) = Element"
  by (simp add: div_with_def)

lemma callback_Inputs1:
  assumes wf: "wf st" and pl: "placed e st" and ns: "\<not> skips Inputs1 e st"
  shows "wrap_input1 g e st = Inr (decorated (wrapperAttrs g Inputs1 st e) [] e st)"
proof -
  let ?n = "nextId st" and ?c = "''input-animated-wrapper''"
  let ?st2 = "\<lparr>forest = Node ?n (div_with ?c) [] # forest st, nextId = Suc ?n\<rparr>"
  let ?wa = "wrapperAttrs g Inputs1 st e"
  let ?st3 = "\<lparr>forest = Node ?n ?wa [] # forest st, nextId = Suc ?n\<rparr>"
  from pl have ein: "e \<in> set (ids (forest st))" by (rule placed_in)
  have sw: "style_width e ?st2 = style_width e st" using wf ein by (rule style_width_detached)
  from ein wf have en: "e < ?n" by (auto simp: wf_def)
  from pl obtain p where p: "parentNode e st = Some p"
    by (auto simp: placed_def split: option.splits)
  then have p3: "parentNode e ?st3 = Some p"
    using en by (auto simp: parentNode_def parentOf_notin)
  let ?iw = "if style_width e st \<noteq> [] then style_width e st else g ?st2 e"
  let ?X = "if ?iw \<noteq> [] then set_style_width ?n ?iw ?st2 else ?st2"
  have X: "?X = ?st3"
    by (simp add: set_style_width_def set_attrs_def div_with_def)
  have two: "andThen (insertBefore p ?n e ?st3) (appendChild ?n e) =
               Inr (?st3\<lparr>forest := wrapF e ?n ?wa [] (forest st)\<rparr>)"
    using wf pl _ _ p3 by (rule wrap_two) (simp_all add: div_with_def)
  from ns have g: "closest e ?c st = None" "\<not> classList_contains e ''search-input'' st"
    by (simp_all add: skips_def excluded_def)
  have "wrap_input1 g e st =
      (case parentNode e ?X of None \<Rightarrow> Inl (TypeError, ?X)
       | Some parent \<Rightarrow> andThen (insertBefore parent ?n e ?X) (appendChild ?n e))"
    unfolding wrap_input1_def
    by (simp add: g Let_def split_def create_div createElement_fst sw split del: if_split
          cong: if_cong option.case_cong)
  then show ?thesis unfolding X using p3 two by (simp add: decorated_def)
qed

lemma callback_Buttons1:
  assumes wf: "wf st" and pl: "placed e st" and ns: "\<not> skips Buttons1 e st"
  shows "wrap_button1 e st = Inr (decorated (div_with ''btn-animated-wrapper'') [] e st)"
proof -
  let ?n = "nextId st" and ?c = "''btn-animated-wrapper''"
  let ?st2 = "\<lparr>forest = Node ?n (div_with ?c) [] # forest st, nextId = Suc ?n\<rparr>"
  from pl have ein: "e \<in> set (ids (forest st))" by (rule placed_in)
  from ein wf have en: "e < ?n" by (auto simp: wf_def)
  from pl obtain p where p: "parentNode e st = Some p"
    by (auto simp: placed_def split: option.splits)
  then have p2: "parentNode e ?st2 = Some p"
    using en by (auto simp: parentNode_def parentOf_notin)
  have two: "andThen (insertBefore p ?n e ?st2) (appendChild ?n e) =
               Inr (?st2\<lparr>forest := wrapF e ?n (div_with ?c) [] (forest st)\<rparr>)"
    using wf pl _ _ p2 by (rule wrap_two) simp_all
  from ns have g: "closest e ?c st = None" "\<not> classList_contains e ''nav-btn'' st"
    "\<not> classList_contains e ''tab-btn'' st" "\<not> classList_contains e ''card-btn'' st"
    by (simp_all add: skips_def excluded_def)
  have "wrap_button1 e st =
      (case parentNode e ?st2 of None \<Rightarrow> Inl (TypeError, ?st2)
       | Some parent \<Rightarrow> andThen (insertBefore parent ?n e ?st2) (appendChild ?n e))"
    unfolding wrap_button1_def
    by (simp add: g Let_def split_def create_div createElement_fst cong: option.case_cong)
  then show ?thesis using p2 two by (simp add: decorated_def)
qed

lemma create_div2:
  "set_className (nextId st) c (snd (createElement ''div'' st)) =
     st\<lparr>forest := Node (nextId st) (div_with c) [] # forest st, nextId := Suc (nextId st)\<rparr>"
  by (simp add: create_div)

lemma callback_Inputs2:
  assumes wf: "wf st" and pl: "placed e st" and ns: "\<not> skips Inputs2 e st"
  shows "wrap_input2 e st =
           Inr (decorated (div_with ''input-animated-wrapper'') (layerAttrs Inputs2) e st)"
proof -
  let ?n = "nextId st" and ?c = "''input-animated-wrapper''"
  let ?st8 = "\<lparr>forest = Node (Suc (Suc (Suc ?n))) (div_with ''border-input'') []
      # Node (Suc (Suc ?n)) (div_with ''darkBorderBg-input'') []
      # Node (Suc ?n) (div_with ''glow-input'') [] # Node ?n (div_with ?c) [] # forest st,
    nextId = Suc (Suc (Suc (Suc ?n)))\<rparr>"
  from pl have ein: "e \<in> set (ids (forest st))" by (rule placed_in)
  from ein wf have en: "e < ?n" by (auto simp: wf_def)
  from pl obtain p where p: "parentNode e st = Some p"
    by (auto simp: placed_def split: option.splits)
  then have p8: "parentNode e ?st8 = Some p"
    using en by (auto simp: parentNode_def parentOf_notin)
  have five: "andThen (andThen (andThen (andThen
           (insertBefore p ?n e ?st8)
           (appendChild ?n (Suc ?n)))
           (appendChild ?n (Suc (Suc ?n))))
           (appendChild ?n (Suc (Suc (Suc ?n)))))
           (appendChild ?n e) =
         Inr (?st8\<lparr>forest := wrapF e ?n (div_with ?c)
            [div_with ''glow-input'', div_with ''darkBorderBg-input'', div_with ''border-input'']
            (forest st)\<rparr>)"
    using wf pl _ _ _ _ _ p8 by (rule wrap_five) simp_all
  from ns have g: "closest e ?c st = None" by (simp add: skips_def)
  have "wrap_input2 e st =
      (case parentNode e ?st8 of None \<Rightarrow> Inl (TypeError, ?st8)
       | Some parent \<Rightarrow>
           andThen (andThen (andThen (andThen
             (insertBefore parent ?n e ?st8)
             (appendChild ?n (Suc ?n)))
             (appendChild ?n (Suc (Suc ?n))))
             (appendChild ?n (Suc (Suc (Suc ?n)))))
             (appendChild ?n e))"
    unfolding wrap_input2_def
    by (simp add: g Let_def split_def createElement_def set_className_def set_attrs_def
          div_with_def cong: option.case_cong)
  then show ?thesis using p8 five by (simp add: decorated_def layerAttrs_def)
qed

lemma callback_Buttons2:
  assumes wf: "wf st" and pl: "placed e st" and ns: "\<not> skips Buttons2 e st"
  shows "wrap_button2 e st =
           Inr (decorated ((div_with ''btn-animated-wrapper'')\<lparr>styleDisplay := ''inline-block''\<rparr>)
                  (layerAttrs Buttons2) e st)"
proof -
  let ?n = "nextId st" and ?c = "''btn-animated-wrapper''"
  let ?wa = "(div_with ?c)\<lparr>styleDisplay := ''inline-block''\<rparr>"
  let ?st9 = "\<lparr>forest = Node (Suc (Suc (Suc ?n))) (div_with ''border-btn'') []
      # Node (Suc (Suc ?n)) (div_with ''darkBorderBg-btn'') []
      # Node (Suc ?n) (div_with ''glow-btn'') [] # Node ?n ?wa [] # forest st,
    nextId = Suc (Suc (Suc (Suc ?n)))\<rparr>"
  from pl have ein: "e \<in> set (ids (forest st))" by (rule placed_in)
  from ein wf have en: "e < ?n" by (auto simp: wf_def)
  from pl obtain p where p: "parentNode e st = Some p"
    by (auto simp: placed_def split: option.splits)
  then have p9: "parentNode e ?st9 = Some p"
    using en by (auto simp: parentNode_def parentOf_notin)
  have five: "andThen (andThen (andThen (andThen
           (insertBefore p ?n e ?st9)
           (appendChild ?n (Suc ?n)))
           (appendChild ?n (Suc (Suc ?n))))
           (appendChild ?n (Suc (Suc (Suc ?n)))))
           (appendChild ?n e) =
         Inr (?st9\<lparr>forest := wrapF e ?n ?wa
            [div_with ''glow-btn'', div_with ''darkBorderBg-btn'', div_with ''border-btn'']
            (forest st)\<rparr>)"
    using wf pl _ _ _ _ _ p9 by (rule wrap_five) (simp_all add: div_with_def)
  from ns have g: "closest e ?c st = None" "\<not> classList_contains e ''nav-btn'' st"
    "\<not> classList_contains e ''tab-btn'' st"
    by (simp_all add: skips_def excluded_def)
  have "wrap_button2 e st =
      (case parentNode e ?st9 of None \<Rightarrow> Inl (TypeError, ?st9)
       | Some parent \<Rightarrow>
           andThen (andThen (andThen (andThen
             (insertBefore parent ?n e ?st9)
             (appendChild ?n (Suc ?n)))
             (appendChild ?n (Suc (Suc ?n))))
             (appendChild ?n (Suc (Suc (Suc ?n)))))
             (appendChild ?n e))"
    unfolding wrap_button2_def
    by (simp add: g Let_def split_def createElement_def
          set_style_display_def set_className_def set_attrs_def div_with_def
          cong: option.case_cong)
  then show ?thesis using p9 five by (simp add: decorated_def layerAttrs_def)
qed

lemma callback_step:
  "wf st \<Longrightarrow> placed e st \<Longrightarrow> callback g ps e st = Inr (step g ps e st)"
proof (cases "skips ps e st")
  case True
  then show ?thesis by (simp add: callback_skips step_def)
next
  case False
  assume "wf st" "placed e st"
  with False show ?thesis
    by (cases ps)
       (simp_all add: step_def callback_Inputs1 callback_Buttons1 callback_Inputs2
          callback_Buttons2 layerAttrs_def)
qed

section \<open>Observations on a decorated document\<close>

lemma forest_decorated [simp]:
  "forest (decorated wa las e st) = wrapF e (nextId st) wa las (forest st)"
  by (simp add: decorated_def)

lemma nextId_decorated [simp]:
  "nextId (decorated wa las e st) = nextId st + Suc (length las)"
  by (simp add: decorated_def)

lemma wfD:
  assumes "wf st"
  shows "distinct (ids (forest st))" and "\<forall>i \<in> set (ids (forest st)). i < nextId st"
    and "nextId st \<notin> set (ids (forest st))"
  using assms by (auto simp: wf_def)

lemma layerIds_iff: "x \<in> set (layerIds w las) \<longleftrightarrow> w < x \<and> x \<le> w + length las"
  by (auto simp: layerIds_def)

lemma ids_decorated:
  assumes "wf st" and "e \<in> set (ids (forest st))"
  shows "set (ids (forest (decorated wa las e st))) =
           set (ids (forest st)) \<union> {nextId st} \<union> set (layerIds (nextId st) las)"
  using assms by (simp add: set_ids_wrapF wfD)

lemma wf_decorated:
  assumes "wf st"
  shows "wf (decorated wa las e st)"
proof (cases "e \<in> set (ids (forest st))")
  case True
  have "distinct (ids (forest (decorated wa las e st)))"
    using assms by (simp add: distinct_ids_wrapF wfD)
  moreover have "\<forall>i \<in> set (ids (forest (decorated wa las e st))).
      i < nextId (decorated wa las e st)"
    unfolding ids_decorated [OF assms True] using wfD(2) [OF assms]
    by (auto simp: layerIds_iff)
  ultimately show ?thesis by (simp add: wf_def)
next
  case False
  then show ?thesis using assms by (auto simp: wf_def wrapF_notin)
qed

lemma attrs_wrapN [simp]: "attrs (wrapN e w wa las n) = attrs n"
  by (simp add: wrapN_def)

lemma attrsOf_lookup: "attrsOf x st = map_option attrs (lookup x (forest st))"
  by (simp add: attrsOf_def map_of_nodes)

lemma attrsOf_None_iff: "attrsOf x st = None \<longleftrightarrow> x \<notin> set (ids (forest st))"
  by (simp add: attrsOf_def map_of_nodes_None)

lemma attrsOf_decorated_old:
  assumes "wf st" and "x < nextId st"
  shows "attrsOf x (decorated wa las e st) = attrsOf x st"
  using assms by (simp add: attrsOf_lookup lookup_wrapF wfD option.map_comp comp_def)

lemma lookup_decorated_wrapper:
  assumes "wf st" and "lookup e (forest st) = Some E"
  shows "lookup (nextId st) (forest (decorated wa las e st)) =
           Some (Node (nextId st) wa (leaves (Suc (nextId st)) las @ [E]))"
  using assms by (simp add: lookup_wrapF_new wfD)

lemma attrsOf_decorated_wrapper:
  assumes "wf st" and "e \<in> set (ids (forest st))"
  shows "attrsOf (nextId st) (decorated wa las e st) = Some wa"
proof -
  from assms(2) obtain E where "lookup e (forest st) = Some E"
    using lookup_None_iff [of e "forest st"] by (cases "lookup e (forest st)") auto
  from lookup_decorated_wrapper [OF assms(1) this, of wa las] show ?thesis
    by (simp add: attrsOf_lookup)
qed

lemma lookup_leaves:
  "k < length as \<Longrightarrow> lookup (n + k) (leaves n as) = Some (Node (n + k) (as ! k) [])"
proof (induction n as arbitrary: k rule: leaves.induct)
  case (1 n)
  then show ?case by simp
next
  case (2 n a as)
  show ?case
  proof (cases k)
    case 0
    then show ?thesis by simp
  next
    case (Suc j)
    with 2 show ?thesis by simp
  qed
qed

lemma attrsOf_decorated_layer:
  assumes "wf st" and "e \<in> set (ids (forest st))" and "k < length las"
  shows "attrsOf (Suc (nextId st) + k) (decorated wa las e st) = Some (las ! k)"
proof -
  from assms(2) obtain E where E: "lookup e (forest st) = Some E"
    using lookup_None_iff [of e "forest st"] by (cases "lookup e (forest st)") auto
  have "Suc (nextId st) + k \<notin> set (ids (forest st))" using wfD(2) [OF assms(1)] by auto
  then have "lookup (Suc (nextId st) + k) (forest (decorated wa las e st)) =
      lookup (Suc (nextId st) + k) [Node (nextId st) wa (leaves (Suc (nextId st)) las @ [E])]"
    using assms(1) E by (simp add: lookup_wrapF_new wfD)
  also have "\<dots> = Some (Node (Suc (nextId st) + k) (las ! k) [])"
    using lookup_leaves [OF assms(3), of "Suc (nextId st)"] by (simp add: lookup_append)
  finally show ?thesis by (simp add: attrsOf_lookup)
qed

lemma parentNode_decorated:
  assumes "wf st" and "e \<in> set (ids (forest st))"
  shows "parentNode x (decorated wa las e st) =
     (if x = e \<or> x \<in> set (layerIds (nextId st) las) then Some (nextId st)
      else if x = nextId st then parentNode e st else parentNode x st)"
  using assms by (simp add: parentNode_def parentOf_wrapF wfD)

lemma lookup_distinct_kids:
  "lookup x F = Some n \<Longrightarrow> distinct (ids F) \<Longrightarrow> distinct (ids (childNodes n))"
  by (induction x F rule: lookup.induct) (auto split: option.splits if_splits)

lemma childIds_decorated_old:
  assumes "wf st" and "x < nextId st"
  shows "childIds x (decorated wa las e st) =
           map (\<lambda>c. if c = e then nextId st else c) (childIds x st)"
proof (cases "lookup x (forest st)")
  case None
  with assms show ?thesis by (simp add: childIds_def lookup_wrapF wfD)
next
  case (Some n)
  then have "distinct (idents (childNodes n))"
    using wfD(1) [OF assms(1)] lookup_distinct_kids distinct_idents by blast
  with Some assms show ?thesis
    by (simp add: childIds_def lookup_wrapF wfD wrapN_def idents_wrapF)
qed

lemma childIds_decorated_wrapper:
  assumes "wf st" and "e \<in> set (ids (forest st))"
  shows "childIds (nextId st) (decorated wa las e st) = layerIds (nextId st) las @ [e]"
proof -
  from assms(2) obtain E where E: "lookup e (forest st) = Some E"
    using lookup_None_iff [of e "forest st"] by (cases "lookup e (forest st)") auto
  then have "ident E = e" by (rule lookup_ident)
  with lookup_decorated_wrapper [OF assms(1) E, of wa las] show ?thesis
    by (simp add: childIds_def idents_layers)
qed

lemma chain_decorated:
  assumes "wf st" and "e \<in> set (ids (forest st))" and "x < nextId st"
  shows "chain x (forest (decorated wa las e st)) =
           concat (map (\<lambda>i. if i = e then [e, nextId st] else [i]) (chain x (forest st)))"
  using assms by (simp add: chain_wrapF wfD)

lemma lookup_not_in_kids:
  "lookup x F = Some n \<Longrightarrow> distinct (ids F) \<Longrightarrow> x \<notin> set (ids (childNodes n))"
proof (induction x F rule: lookup.induct)
  case (1 i)
  then show ?case by simp
next
  case (2 i j a ks ts)
  show ?case
  proof (cases "i = j")
    case True
    with "2.prems" show ?thesis by auto
  next
    case False
    show ?thesis
    proof (cases "lookup i ks")
      case None
      with False 2 show ?thesis by auto
    next
      case (Some m)
      with False 2 show ?thesis by auto
    qed
  qed
qed

lemma lookup_decorated_target:
  assumes "wf st" and "e \<in> set (ids (forest st))"
  shows "lookup e (forest (decorated wa las e st)) = lookup e (forest st)"
proof -
  from assms(2) obtain E where E: "lookup e (forest st) = Some E"
    using lookup_None_iff [of e "forest st"] by (cases "lookup e (forest st)") auto
  have d: "distinct (ids (forest st))" using assms(1) by (rule wfD)
  have "e \<notin> set (ids (childNodes E))" using E d by (rule lookup_not_in_kids)
  then have "wrapN e (nextId st) wa las E = E" by (rule wrapN_notin)
  moreover have "e < nextId st" using assms wfD(2) by blast
  ultimately show ?thesis using assms(1) E by (simp add: lookup_wrapF wfD)
qed

section \<open>The invariant of a pass\<close>

lemma wrapperAttrs_class:
  "nodeKind (wrapperAttrs g ps st e) = Element \<and>
   classList (wrapperAttrs g ps st e) = [wrapperClass ps]"
  by (cases ps) (simp_all add: div_with_def)

lemma wrapperAttrs_is_wrapper: "is_wrapper ps (wrapperAttrs g ps st e)"
  by (cases ps) (simp_all add: is_wrapper_def div_with_def)

lemma has_class_decorated_old:
  "wf st \<Longrightarrow> x < nextId st \<Longrightarrow> has_class c (decorated wa las e st) x = has_class c st x"
  by (simp add: has_class_def attrsOf_decorated_old)

lemma has_class_wrapper:
  assumes "wf st" and "e \<in> set (ids (forest st))"
  shows "has_class (wrapperClass ps)
           (decorated (wrapperAttrs g ps st e) las e st) (nextId st)"
  using attrsOf_decorated_wrapper [OF assms] wrapperAttrs_class [of g ps st e]
  by (simp add: has_class_def)

lemma closest_None_iff:
  "closest x c st = None \<longleftrightarrow> (\<forall>i \<in> set (chain x (forest st)). \<not> has_class c st i)"
  by (auto simp: closest_def find_None_iff)

lemma set_concat_map_sup:
  "i \<in> set xs \<Longrightarrow> i \<in> set (concat (map (\<lambda>i. if i = e then [e, w] else [i]) xs))"
  by (induction xs) auto

lemma closest_decorated_mono:
  assumes wf: "wf st" and e: "e \<in> set (ids (forest st))" and x: "x < nextId st"
    and c: "closest x c st \<noteq> None"
  shows "closest x c (decorated wa las e st) \<noteq> None"
proof -
  from c obtain i where i: "i \<in> set (chain x (forest st))" "has_class c st i"
    by (auto simp: closest_None_iff)
  from i(1) have "i \<in> set (ids (forest st))" using chain_subset by blast
  then have "i < nextId st" using wfD(2) [OF wf] by blast
  then have "has_class c (decorated wa las e st) i"
    using i(2) wf by (simp add: has_class_decorated_old)
  moreover have "i \<in> set (chain x (forest (decorated wa las e st)))"
    unfolding chain_decorated [OF wf e x] using i(1) by (rule set_concat_map_sup)
  ultimately show ?thesis by (auto simp: closest_None_iff)
qed

lemma classList_contains_decorated:
  "wf st \<Longrightarrow> x < nextId st \<Longrightarrow>
   classList_contains x c (decorated wa las e st) = classList_contains x c st"
  by (simp add: classList_contains_def attrsOf_decorated_old)

lemma excluded_decorated:
  "wf st \<Longrightarrow> x < nextId st \<Longrightarrow> excluded ps x (decorated wa las e st) = excluded ps x st"
  by (simp add: excluded_def classList_contains_decorated)

lemma skips_decorated_mono:
  assumes "wf st" and "e \<in> set (ids (forest st))" and "x < nextId st" and "skips ps x st"
  shows "skips ps x (decorated wa las e st)"
  using assms closest_decorated_mono [OF assms(1,2,3)]
  by (auto simp: skips_def excluded_decorated)

lemma chain_self: "x \<in> set (ids F) \<Longrightarrow> x \<in> set (chain x F)"
  using chain_hd [of x F] by auto

lemma closest_after_decoration:
  assumes wf: "wf st" and e: "e \<in> set (ids (forest st))"
  shows "closest e (wrapperClass ps) (decorated (wrapperAttrs g ps st e) las e st) \<noteq> None"
proof -
  let ?st' = "decorated (wrapperAttrs g ps st e) las e st"
  have en: "e < nextId st" using wfD(2) [OF wf] e by blast
  have "e \<in> set (chain e (forest st))" using e by (rule chain_self)
  then have "nextId st \<in> set (chain e (forest ?st'))"
    unfolding chain_decorated [OF wf e en] by auto
  moreover have "has_class (wrapperClass ps) ?st' (nextId st)"
    using wf e by (rule has_class_wrapper)
  ultimately show ?thesis by (auto simp: closest_None_iff)
qed

lemma grown_refl: "wf s0 \<Longrightarrow> grown ps s0 s0"
proof -
  assume wf: "wf s0"
  have "\<And>x. nextId s0 \<le> x \<Longrightarrow> attrsOf x s0 = None"
    using wfD(2) [OF wf] by (fastforce simp: attrsOf_None_iff)
  then show ?thesis using wf by (simp add: grown_def)
qed

lemma grownD:
  assumes "grown ps s0 st"
  shows "wf st" and "nextId s0 \<le> nextId st"
    and "\<And>x. x < nextId s0 \<Longrightarrow> attrsOf x st = attrsOf x s0"
    and "\<And>x. x < nextId s0 \<Longrightarrow> parentNode x st = parentNode x s0 \<or>
        (\<exists>p\<ge>nextId s0. parentNode x st = Some p \<and> has_class (wrapperClass ps) st p)"
    and "\<And>x a. nextId s0 \<le> x \<Longrightarrow> attrsOf x st = Some a \<Longrightarrow> is_wrapper ps a \<or> is_layer ps a"
  using assms by (auto simp: grown_def)

lemma grown_ids:
  assumes "grown ps s0 st" and "x < nextId s0"
  shows "x \<in> set (ids (forest st)) \<longleftrightarrow> x \<in> set (ids (forest s0))"
  using grownD(3) [OF assms] attrsOf_None_iff [of x st] attrsOf_None_iff [of x s0] by simp

lemma parent_in_closest:
  assumes wf: "wf st" and p: "parentNode x st = Some p" and c: "has_class c st p"
  shows "closest x c st \<noteq> None"
proof -
  from p have "chain x (forest st) = x # chain p (forest st)"
    using wfD(1) [OF wf] by (simp add: parentNode_def chain_parent)
  moreover from p have "p \<in> set (ids (forest st))"
    using parentOf_in_ids by (auto simp: parentNode_def)
  then have "p \<in> set (chain p (forest st))" by (rule chain_self)
  ultimately show ?thesis using c by (auto simp: closest_None_iff)
qed

lemma placed_old:
  "placed e s0 \<Longrightarrow> wf s0 \<Longrightarrow> e < nextId s0"
  using placed_in wfD(2) by blast

lemma grown_unskipped:
  assumes g: "grown ps s0 st" and wf0: "wf s0" and pl: "placed e s0"
    and ns: "\<not> skips ps e st"
  shows "placed e st" and "parentNode e st = parentNode e s0"
proof -
  have wf: "wf st" using g by (rule grownD)
  have en: "e < nextId s0" using pl wf0 by (rule placed_old)
  from grownD(4) [OF g en] show par: "parentNode e st = parentNode e s0"
  proof
    assume "\<exists>p\<ge>nextId s0. parentNode e st = Some p \<and> has_class (wrapperClass ps) st p"
    then obtain p where "parentNode e st = Some p" "has_class (wrapperClass ps) st p" by blast
    then have "closest e (wrapperClass ps) st \<noteq> None" using wf parent_in_closest by blast
    with ns show ?thesis by (simp add: skips_def)
  qed
  from pl obtain p where p: "parentNode e s0 = Some p" "is_element p s0" "is_element e s0"
    by (auto simp: placed_def split: option.splits)
  from p(1) have "p \<in> set (ids (forest s0))"
    using parentOf_in_ids by (auto simp: parentNode_def)
  then have pn: "p < nextId s0" using wfD(2) [OF wf0] by blast
  show "placed e st"
    using p par grownD(3) [OF g en] grownD(3) [OF g pn]
    by (simp add: placed_def is_element_def)
qed

lemma layerAttrs_nth:
  "k < length (layerAttrs ps) \<Longrightarrow> is_layer ps (layerAttrs ps ! k)"
  by (simp add: is_layer_def)

lemma grown_decorated:
  assumes g: "grown ps s0 st" and e: "e \<in> set (ids (forest st))"
  shows "grown ps s0 (decorated (wrapperAttrs g' ps st e) (layerAttrs ps) e st)"
proof -
  let ?wa = "wrapperAttrs g' ps st e" and ?las = "layerAttrs ps"
  let ?st' = "decorated ?wa ?las e st" and ?n = "nextId st" and ?m = "nextId s0"
  have wf: "wf st" using g by (rule grownD)
  have n0: "?m \<le> ?n" using g by (rule grownD)
  have wf': "wf ?st'" using wf by (rule wf_decorated)
  have a: "\<forall>x<?m. attrsOf x ?st' = attrsOf x s0"
    using grownD(3) [OF g] n0 wf by (simp add: attrsOf_decorated_old)
  have hc: "has_class (wrapperClass ps) ?st' ?n" using wf e by (rule has_class_wrapper)
  have p: "\<forall>x<?m. parentNode x ?st' = parentNode x s0 \<or>
        (\<exists>p\<ge>?m. parentNode x ?st' = Some p \<and> has_class (wrapperClass ps) ?st' p)"
  proof (intro allI impI)
    fix x assume x: "x < ?m"
    show "parentNode x ?st' = parentNode x s0 \<or>
        (\<exists>p\<ge>?m. parentNode x ?st' = Some p \<and> has_class (wrapperClass ps) ?st' p)"
    proof (cases "x = e")
      case True
      then have "parentNode x ?st' = Some ?n" using wf e by (simp add: parentNode_decorated)
      with hc n0 show ?thesis by blast
    next
      case False
      have "x \<notin> set (layerIds ?n ?las)" "x \<noteq> ?n"
        using x n0 layerIds_gt [of x ?n ?las] by auto
      with False have eq: "parentNode x ?st' = parentNode x st"
        using wf e by (simp add: parentNode_decorated)
      from grownD(4) [OF g x] show ?thesis
      proof
        assume "parentNode x st = parentNode x s0"
        with eq show ?thesis by simp
      next
        assume "\<exists>p\<ge>?m. parentNode x st = Some p \<and> has_class (wrapperClass ps) st p"
        then obtain q where q: "?m \<le> q" "parentNode x st = Some q"
          "has_class (wrapperClass ps) st q" by blast
        from q(2) have "q \<in> set (ids (forest st))"
          using parentOf_in_ids by (auto simp: parentNode_def)
        then have "q < ?n" using wfD(2) [OF wf] by blast
        then have "has_class (wrapperClass ps) ?st' q"
          using q(3) wf by (simp add: has_class_decorated_old)
        with q eq show ?thesis by auto
      qed
    qed
  qed
  have c: "\<forall>x\<ge>?m. \<forall>a. attrsOf x ?st' = Some a \<longrightarrow> is_wrapper ps a \<or> is_layer ps a"
  proof (intro allI impI)
    fix x a assume x: "?m \<le> x" and xa: "attrsOf x ?st' = Some a"
    from xa have "x \<in> set (ids (forest ?st'))" using attrsOf_None_iff [of x ?st'] by auto
    then consider (old) "x \<in> set (ids (forest st))" | (w) "x = ?n"
      | (l) "x \<in> set (layerIds ?n ?las)"
      unfolding ids_decorated [OF wf e] by blast
    then show "is_wrapper ps a \<or> is_layer ps a"
    proof cases
      case old
      then have "x < ?n" using wfD(2) [OF wf] by blast
      then have "attrsOf x st = Some a" using xa wf by (simp add: attrsOf_decorated_old)
      with grownD(5) [OF g x] show ?thesis by blast
    next
      case w
      then have "a = ?wa" using xa attrsOf_decorated_wrapper [OF wf e, of ?wa ?las] by simp
      then show ?thesis using wrapperAttrs_is_wrapper by blast
    next
      case l
      then obtain k where k: "x = Suc ?n + k" "k < length ?las"
        by (auto simp: layerIds_iff intro: that [of "x - Suc ?n"])
      then have "a = ?las ! k"
        using xa attrsOf_decorated_layer [OF wf e k(2), of ?wa] by simp
      then show ?thesis using layerAttrs_nth [OF k(2)] by blast
    qed
  qed
  show ?thesis using wf' n0 a p c by (simp add: grown_def)
qed

lemma grown_step:
  assumes g: "grown ps s0 st" and wf0: "wf s0" and pl: "placed e s0"
  shows "callback g' ps e st = Inr (step g' ps e st)" and "grown ps s0 (step g' ps e st)"
proof -
  have wf: "wf st" using g by (rule grownD)
  show "callback g' ps e st = Inr (step g' ps e st)"
  proof (cases "skips ps e st")
    case True
    then show ?thesis by (simp add: callback_skips step_def)
  next
    case False
    with g wf0 pl have "placed e st" by (rule grown_unskipped)
    with wf show ?thesis by (rule callback_step)
  qed
  show "grown ps s0 (step g' ps e st)"
  proof (cases "skips ps e st")
    case True
    with g show ?thesis by (simp add: step_def)
  next
    case False
    with g wf0 pl have "placed e st" by (rule grown_unskipped)
    then have "e \<in> set (ids (forest st))" by (rule placed_in)
    with g False show ?thesis by (simp add: step_def grown_decorated)
  qed
qed

lemma forEach_invariant:
  assumes wf0: "wf s0"
    and step: "\<And>pre e st. e \<in> set els \<Longrightarrow> grown ps s0 st \<Longrightarrow> Q pre st \<Longrightarrow>
        grown ps s0 (step g ps e st) \<Longrightarrow> Q (pre @ [e]) (step g ps e st)"
  shows "grown ps s0 st \<Longrightarrow> Q pre st \<Longrightarrow> set xs \<subseteq> set els \<Longrightarrow> \<forall>e \<in> set xs. placed e s0 \<Longrightarrow>
         \<exists>st'. forEach (callback g ps) xs st = Inr st' \<and> grown ps s0 st' \<and> Q (pre @ xs) st'"
proof (induction xs arbitrary: st pre)
  case Nil
  then show ?case by simp
next
  case (Cons x xs)
  from Cons.prems have pl: "placed x s0" and xin: "x \<in> set els" by auto
  from grown_step [OF Cons.prems(1) wf0 pl, of g]
  have cb: "callback g ps x st = Inr (step g ps x st)" and g': "grown ps s0 (step g ps x st)"
    by auto
  have Q': "Q (pre @ [x]) (step g ps x st)" using step [OF xin Cons.prems(1,2) g'] .
  from Cons.IH [OF g' Q'] Cons.prems(3,4) obtain st' where
    "forEach (callback g ps) xs (step g ps x st) = Inr st'" "grown ps s0 st'"
    "Q ((pre @ [x]) @ xs) st'" by auto
  then show ?case using cb by (simp add: andThen_Inr)
qed

lemma run_invariant:
  assumes wf0: "wf s0" and safe: "safe ps s0" and Q0: "Q [] s0"
    and step: "\<And>pre e st. e \<in> set (querySelectorAll (selectors ps) s0) \<Longrightarrow> placed e s0 \<Longrightarrow>
        grown ps s0 st \<Longrightarrow> Q pre st \<Longrightarrow>
        grown ps s0 (step g ps e st) \<Longrightarrow> Q (pre @ [e]) (step g ps e st)"
  shows "\<exists>st'. run g ps s0 = Inr st' \<and> grown ps s0 st' \<and>
           Q (querySelectorAll (selectors ps) s0) st'"
proof -
  let ?els = "querySelectorAll (selectors ps) s0"
  have pl: "\<forall>e \<in> set ?els. placed e s0" using safe by (simp add: safe_def)
  have st: "\<And>pre e st. e \<in> set ?els \<Longrightarrow> grown ps s0 st \<Longrightarrow> Q pre st \<Longrightarrow>
        grown ps s0 (step g ps e st) \<Longrightarrow> Q (pre @ [e]) (step g ps e st)"
    using pl step by blast
  have "\<exists>st'. forEach (callback g ps) ?els s0 = Inr st' \<and> grown ps s0 st' \<and> Q ([] @ ?els) st'"
    using wf0 st grown_refl [OF wf0] Q0 subset_refl pl
    by (rule forEach_invariant [where els = ?els and Q = Q and pre = "[]" and xs = ?els])
  then show ?thesis by (simp add: run_forEach)
qed

section \<open>Skipped elements and idempotence\<close>

lemma created_unmatched:
  "is_wrapper ps a \<or> is_layer ps a \<Longrightarrow> \<not> matches_any (selectors ps) a"
proof -
  assume "is_wrapper ps a \<or> is_layer ps a"
  then have "localName a = ''div'' \<and> typeAttr a = None \<and>
     (\<exists>c \<in> set (wrapperClass ps # layerClasses ps). classList a = [c])"
  proof
    assume w: "is_wrapper ps a"
    then have "localName (a\<lparr>styleWidth := []\<rparr>) = ''div''" "typeAttr (a\<lparr>styleWidth := []\<rparr>) = None"
      "classList (a\<lparr>styleWidth := []\<rparr>) = [wrapperClass ps]"
      unfolding is_wrapper_def by (simp_all add: div_with_def)
    then show ?thesis by simp
  next
    assume "is_layer ps a"
    then show ?thesis by (auto simp: is_layer_def layerAttrs_def div_with_def)
  qed
  then show ?thesis
    by (cases ps)
       (auto simp: matches_any_def inputs1_def buttons1_def inputs2_def buttons2_def)
qed

lemma grown_matched:
  assumes g: "grown ps s0 st" and m: "matched ps x st"
  shows "matched ps x s0"
proof (cases "x < nextId s0")
  case True
  with grownD(3) [OF g] m show ?thesis by (simp add: matched_def)
next
  case False
  from m obtain a where a: "attrsOf x st = Some a" "matches_any (selectors ps) a"
    by (auto simp: matched_def split: option.splits)
  from False grownD(5) [OF g _ a(1)] have "is_wrapper ps a \<or> is_layer ps a" by simp
  with a(2) created_unmatched show ?thesis by blast
qed

lemma lookup_sub_nodes: "lookup x F = Some n \<Longrightarrow> set (nodes (childNodes n)) \<subseteq> set (nodes F)"
  by (induction x F rule: lookup.induct) (auto split: option.splits if_splits)

lemma nodes_attrsOf:
  "distinct (ids (forest st)) \<Longrightarrow> (x, a) \<in> set (nodes (forest st)) \<Longrightarrow> attrsOf x st = Some a"
  by (simp add: attrsOf_def ids_def)

lemma query_matched:
  assumes wf: "wf st" and x: "x \<in> set (querySelectorAll (selectors ps) st)"
  shows "matched ps x st" and "x \<noteq> document"
proof -
  from x obtain d where d: "lookup document (forest st) = Some d"
    by (cases "lookup document (forest st)") (auto simp: querySelectorAll_def)
  with x obtain a where xa: "(x, a) \<in> set (nodes (childNodes d))"
    and m: "matches_any (selectors ps) a"
    by (auto simp: querySelectorAll_def)
  from xa lookup_sub_nodes [OF d] have "(x, a) \<in> set (nodes (forest st))" by blast
  then have "attrsOf x st = Some a" using wfD(1) [OF wf] by (simp add: nodes_attrsOf)
  with m show "matched ps x st" by (simp add: matched_def)
  from xa have "x \<in> set (ids (childNodes d))" by (force simp: ids_def)
  moreover have "document \<notin> set (ids (childNodes d))"
    using d wfD(1) [OF wf] by (rule lookup_not_in_kids)
  ultimately show "x \<noteq> document" by auto
qed

lemma well_formedD:
  assumes "well_formed st"
  obtains a ks where "forest st = [Node document a ks]" "nodeKind a = Document" "wf st"
  using assms
  by (auto simp: well_formed_def split: list.splits node.splits)

lemma matched_query:
  assumes wfd: "well_formed st" and m: "matched ps x st" and x: "x \<noteq> document"
  shows "x \<in> set (querySelectorAll (selectors ps) st)"
proof -
  from wfd obtain a0 ks where f: "forest st = [Node document a0 ks]" and wf: "wf st"
    by (rule well_formedD)
  from m obtain a where a: "attrsOf x st = Some a" "matches_any (selectors ps) a"
    by (auto simp: matched_def split: option.splits)
  from a(1) x have "map_of (nodes ks) x = Some a" by (simp add: attrsOf_def f)
  then have "(x, a) \<in> set (nodes ks)" by (rule map_of_SomeD)
  with a(2) show ?thesis by (force simp: querySelectorAll_def f)
qed

lemma forEach_all_skip:
  "\<forall>x \<in> set xs. skips ps x st \<Longrightarrow> forEach (callback g ps) xs st = Inr st"
  by (induction xs) (simp_all add: callback_skips andThen_Inr)

lemma skips_step_mono:
  assumes g: "grown ps s0 st" and wf0: "wf s0" and pl: "placed e s0"
    and x: "x < nextId st" and s: "skips ps x st"
  shows "skips ps x (step g' ps e st)"
proof (cases "skips ps e st")
  case True
  with s show ?thesis by (simp add: step_def)
next
  case False
  with g wf0 pl have "placed e st" by (rule grown_unskipped)
  then have "e \<in> set (ids (forest st))" by (rule placed_in)
  with False s x grownD(1) [OF g] show ?thesis by (simp add: step_def skips_decorated_mono)
qed

lemma skips_after_step:
  assumes g: "grown ps s0 st" and wf0: "wf s0" and pl: "placed e s0"
  shows "skips ps e (step g' ps e st)"
proof (cases "skips ps e st")
  case True
  then show ?thesis by (simp add: step_def)
next
  case False
  with g wf0 pl have "placed e st" by (rule grown_unskipped)
  then have "e \<in> set (ids (forest st))" by (rule placed_in)
  with False grownD(1) [OF g] show ?thesis
    by (simp add: step_def skips_def closest_after_decoration)
qed

lemma run_all_skip:
  assumes wf0: "wf s0" and safe: "safe ps s0"
  shows "\<exists>st'. run g ps s0 = Inr st' \<and> grown ps s0 st' \<and>
           (\<forall>x \<in> set (querySelectorAll (selectors ps) s0). skips ps x st')"
proof -
  let ?Q = "\<lambda>pre st. \<forall>x \<in> set pre. placed x s0 \<and> skips ps x st"
  have "\<exists>st'. run g ps s0 = Inr st' \<and> grown ps s0 st' \<and>
           ?Q (querySelectorAll (selectors ps) s0) st'"
  proof (rule run_invariant [OF wf0 safe])
    show "?Q [] s0" by simp
  next
    fix pre e st
    assume e: "placed e s0" and g: "grown ps s0 st" and Q: "?Q pre st"
    have "\<And>x. x \<in> set pre \<Longrightarrow> skips ps x (step g ps e st)"
    proof -
      fix x assume "x \<in> set pre"
      with Q have px: "placed x s0" and sx: "skips ps x st" by auto
      from px wf0 have "x < nextId s0" by (rule placed_old)
      with grownD(2) [OF g] have "x < nextId st" by simp
      with g wf0 e show "skips ps x (step g ps e st)" using sx by (rule skips_step_mono)
    qed
    moreover have "skips ps e (step g ps e st)" using g wf0 e by (rule skips_after_step)
    ultimately show "?Q (pre @ [e]) (step g ps e st)" using Q e by auto
  qed
  then show ?thesis by blast
qed

lemma run_idempotent:
  assumes wfd: "well_formed s0" and safe: "safe ps s0"
  shows "\<exists>st'. run g ps s0 = Inr st' \<and> run g ps st' = Inr st' \<and> grown ps s0 st'"
proof -
  from wfd have wf0: "wf s0" by (rule well_formedD)
  from run_all_skip [OF wf0 safe, of g] obtain st' where
    r: "run g ps s0 = Inr st'" and g: "grown ps s0 st'"
    and sk: "\<forall>x \<in> set (querySelectorAll (selectors ps) s0). skips ps x st'" by blast
  have "\<forall>x \<in> set (querySelectorAll (selectors ps) st'). skips ps x st'"
  proof
    fix x assume x: "x \<in> set (querySelectorAll (selectors ps) st')"
    have "matched ps x st'" "x \<noteq> document" using query_matched [OF grownD(1) [OF g] x] by auto
    then have "x \<in> set (querySelectorAll (selectors ps) s0)"
      using grown_matched [OF g] matched_query [OF wfd] by blast
    with sk show "skips ps x st'" by blast
  qed
  then have "run g ps st' = Inr st'" by (simp add: run_forEach forEach_all_skip)
  with r g show ?thesis by blast
qed

section \<open>Wrapped elements and their wrappers\<close>

lemma grown_has_class:
  assumes "grown ps s0 st" and "x < nextId s0"
  shows "has_class c st x = has_class c s0 x"
  using grownD(3) [OF assms] by (simp add: has_class_def)

lemma grown_excluded:
  assumes "grown ps s0 st" and "x < nextId s0"
  shows "excluded ps' x st = excluded ps' x s0"
  using grownD(3) [OF assms] by (simp add: excluded_def classList_contains_def)

lemma grown_style_width:
  assumes "grown ps s0 st" and "x < nextId s0"
  shows "style_width x st = style_width x s0"
  using grownD(3) [OF assms] by (simp add: style_width_def)

lemma is_wrapper_has_class:
  "attrsOf w st = Some a \<Longrightarrow> is_wrapper ps a \<Longrightarrow> has_class (wrapperClass ps) st w"
proof -
  assume a: "attrsOf w st = Some a" and w: "is_wrapper ps a"
  from w have "nodeKind (a\<lparr>styleWidth := []\<rparr>) = Element"
    "classList (a\<lparr>styleWidth := []\<rparr>) = [wrapperClass ps]"
    unfolding is_wrapper_def by (simp_all add: div_with_def)
  with a show ?thesis by (simp add: has_class_def)
qed

lemma chain_old:
  assumes "wf st" and "i \<in> set (chain x (forest st))"
  shows "i < nextId st"
  using assms chain_subset wfD(2) by blast

lemma tl_chain_notin:
  assumes d: "distinct (ids F)" and "x \<in> set (chain e F)" and "x \<noteq> e"
  shows "x \<in> set (tl (chain e F))"
proof -
  from assms(2) have "e \<in> set (ids F)" using chain_Nil_iff [of e F] by auto
  then obtain cs where "chain e F = e # cs" using chain_hd by blast
  with assms(2,3) show ?thesis by simp
qed

lemma topmost_not_ancestor:
  assumes wf0: "wf s0" and cl: "topmost ps e s0"
    and t: "t \<in> set (querySelectorAll (selectors ps) s0)" and ne: "t \<noteq> e"
    and nx: "\<not> excluded ps t s0"
  shows "t \<notin> set (chain e (forest s0))"
proof
  assume "t \<in> set (chain e (forest s0))"
  then have "t \<in> set (tl (chain e (forest s0)))"
    using wfD(1) [OF wf0] ne by (simp add: tl_chain_notin)
  with cl have "\<not> (matched ps t s0 \<and> \<not> excluded ps t s0)" by (simp add: topmost_def)
  with nx query_matched(1) [OF wf0 t] show False by simp
qed

lemma map_subst_id: "t \<notin> set xs \<Longrightarrow> map (\<lambda>c. if c = t then n else c) xs = xs"
  by (induction xs) auto

lemma concat_map_pair_id:
  "e \<notin> set xs \<Longrightarrow> concat (map (\<lambda>i. if i = e then [e, w] else [i]) xs) = xs"
  by (induction xs) auto

lemma own_step_self:
  assumes wf0: "wf s0" and g: "grown ps s0 st" and pl: "placed e s0"
    and cl: "clear ps e s0" and ch: "chain e (forest st) = chain e (forest s0)"
  shows "owns ps s0 e (step g' ps e st) (nextId st)"
proof -
  let ?wa = "wrapperAttrs g' ps st e" and ?las = "layerAttrs ps" and ?n = "nextId st"
  let ?st' = "decorated ?wa ?las e st"
  have wf: "wf st" using g by (rule grownD)
  have en: "e < nextId s0" using pl wf0 by (rule placed_old)
  have "\<And>i. i \<in> set (chain e (forest s0)) \<Longrightarrow> \<not> has_class (wrapperClass ps) st i"
  proof -
    fix i assume i: "i \<in> set (chain e (forest s0))"
    then have "i < nextId s0" using wf0 by (rule chain_old [rotated])
    with g have "has_class (wrapperClass ps) st i = has_class (wrapperClass ps) s0 i"
      by (rule grown_has_class)
    with cl i show "\<not> has_class (wrapperClass ps) st i"
      by (simp add: clear_def closest_None_iff)
  qed
  then have "closest e (wrapperClass ps) st = None" by (simp add: closest_None_iff ch)
  moreover have "\<not> excluded ps e st" using cl grown_excluded [OF g en] by (simp add: clear_def)
  ultimately have ns: "\<not> skips ps e st" by (simp add: skips_def)
  then have st': "step g' ps e st = ?st'" by (simp add: step_def)
  from g wf0 pl ns have "placed e st" by (rule grown_unskipped)
  then have e: "e \<in> set (ids (forest st))" by (rule placed_in)
  have e': "e \<in> set (ids (forest s0))" using pl by (rule placed_in)
  from e' obtain cs where cs: "chain e (forest s0) = e # cs" using chain_hd by blast
  have "distinct (chain e (forest s0))" using wfD(1) [OF wf0] by (rule chain_distinct)
  with cs have "e \<notin> set cs" by simp
  then have c: "chain e (forest ?st') = e # ?n # tl (chain e (forest s0))"
    using chain_decorated [OF wf e, of e ?wa ?las] en grownD(2) [OF g]
    by (simp add: ch cs concat_map_pair_id)
  have w: "ps = Inputs1 \<Longrightarrow> style_width e s0 \<noteq> [] \<Longrightarrow> styleWidth ?wa = style_width e s0"
    using grown_style_width [OF g en] by simp
  have nl: "?n \<notin> set (layerIds ?n ?las)" "?n \<noteq> e"
    using layerIds_gt [of ?n ?n ?las] en grownD(2) [OF g] by auto
  have pw: "parentNode ?n ?st' = parentNode e s0"
    using parentNode_decorated [OF wf e, of ?n ?wa ?las] nl
      grown_unskipped(2) [OF g wf0 pl ns] by simp
  show ?thesis
    unfolding st' owns_def
    using grownD(2) [OF g] parentNode_decorated [OF wf e, of e ?wa ?las]
      attrsOf_decorated_wrapper [OF wf e, of ?wa ?las] wrapperAttrs_is_wrapper [of ps g' st e]
      childIds_decorated_wrapper [OF wf e, of ?wa ?las] attrsOf_decorated_layer [OF wf e, of _ ?las ?wa]
      c w pw
    by simp
qed

lemma own_step_other:
  assumes wf0: "wf s0" and g: "grown ps s0 st" and pl: "placed t s0"
    and t: "t \<notin> set (chain e (forest s0))" and ne: "t \<noteq> e"
    and ns: "\<not> skips ps t st" and o: "owns ps s0 e st w"
  shows "owns ps s0 e (step g' ps t st) w"
proof -
  let ?wa = "wrapperAttrs g' ps st t" and ?las = "layerAttrs ps" and ?n = "nextId st"
  let ?st' = "decorated ?wa ?las t st"
  have wf: "wf st" using g by (rule grownD)
  have tn: "t < nextId s0" using pl wf0 by (rule placed_old)
  have st': "step g' ps t st = ?st'" using ns by (simp add: step_def)
  from g wf0 pl ns have "placed t st" by (rule grown_unskipped)
  then have tin: "t \<in> set (ids (forest st))" by (rule placed_in)
  from o have w0: "nextId s0 \<le> w" and pw: "parentNode e st = Some w"
    and ck: "childIds w st = layerIds w ?las @ [e]"
    and la: "\<And>k. k < length ?las \<Longrightarrow> attrsOf (Suc w + k) st = Some (?las ! k)"
    and ch: "chain e (forest st) = e # w # tl (chain e (forest s0))"
    and pp: "parentNode w st = parentNode e s0"
    by (auto simp: owns_def)
  from pw have win: "w \<in> set (ids (forest st))" "e \<in> set (ids (forest st))"
    using parentOf_in_ids by (auto simp: parentNode_def)
  then have wn: "w < ?n" "e < ?n" using wfD(2) [OF wf] by auto
  have tw: "t \<noteq> w" using tn w0 by simp
  have en': "e \<notin> set (layerIds ?n ?las)" "e \<noteq> ?n"
    using wn layerIds_gt [of e ?n ?las] by auto
  have p': "parentNode e ?st' = Some w"
    using parentNode_decorated [OF wf tin, of e ?wa ?las] ne en' pw by simp
  have a': "attrsOf w ?st' = attrsOf w st" using wf wn by (simp add: attrsOf_decorated_old)
  have "t \<notin> set (layerIds w ?las)" using tn w0 layerIds_gt [of t w ?las] by auto
  then have "map (\<lambda>c. if c = t then ?n else c) (layerIds w ?las @ [e]) = layerIds w ?las @ [e]"
    using ne by (simp add: map_subst_id)
  then have k': "childIds w ?st' = layerIds w ?las @ [e]"
    using childIds_decorated_old [OF wf wn(1), of ?wa ?las t] ck by simp
  have l': "\<And>k. k < length ?las \<Longrightarrow> attrsOf (Suc w + k) ?st' = Some (?las ! k)"
  proof -
    fix k assume k: "k < length ?las"
    from la [OF k] have "Suc w + k \<in> set (ids (forest st))"
      using attrsOf_None_iff [of "Suc w + k" st] by auto
    then have "Suc w + k < ?n" using wfD(2) [OF wf] by blast
    with la [OF k] wf show "attrsOf (Suc w + k) ?st' = Some (?las ! k)"
      by (simp add: attrsOf_decorated_old)
  qed
  have "t \<notin> set (tl (chain e (forest s0)))" using t by (cases "chain e (forest s0)") auto
  with ne tw have "t \<notin> set (e # w # tl (chain e (forest s0)))" by simp
  then have "concat (map (\<lambda>i. if i = t then [t, ?n] else [i]) (e # w # tl (chain e (forest s0))))
      = e # w # tl (chain e (forest s0))"
    by (rule concat_map_pair_id)
  then have c': "chain e (forest ?st') = e # w # tl (chain e (forest s0))"
    using chain_decorated [OF wf tin wn(2), of ?wa ?las] ch by simp
  have wn': "w \<notin> set (layerIds ?n ?las)" "w \<noteq> ?n"
    using wn layerIds_gt [of w ?n ?las] by auto
  have pp': "parentNode w ?st' = parentNode e s0"
    using parentNode_decorated [OF wf tin, of w ?wa ?las] tw wn' pp by simp
  show ?thesis
    unfolding st' owns_def using w0 p' a' k' l' c' pp' o by (simp add: owns_def)
qed

lemma owns_skips:
  assumes wf: "wf st" and o: "owns ps s0 e st w"
  shows "skips ps e st"
proof -
  from o obtain a where "parentNode e st = Some w" "attrsOf w st = Some a" "is_wrapper ps a"
    by (auto simp: owns_def split: option.splits)
  then have "closest e (wrapperClass ps) st \<noteq> None"
    using wf is_wrapper_has_class parent_in_closest by blast
  then show ?thesis by (simp add: skips_def)
qed

lemma run_owns:
  assumes wf0: "wf s0" and safe: "safe ps s0"
    and e: "e \<in> set (querySelectorAll (selectors ps) s0)" and cl: "clear ps e s0"
  shows "\<exists>st' w. run g ps s0 = Inr st' \<and> grown ps s0 st' \<and> owns ps s0 e st' w"
proof -
  let ?els = "querySelectorAll (selectors ps) s0"
  let ?Q = "\<lambda>pre st. (e \<notin> set pre \<longrightarrow> chain e (forest st) = chain e (forest s0)) \<and>
                       (e \<in> set pre \<longrightarrow> (\<exists>w. owns ps s0 e st w))"
  from safe e have ple: "placed e s0" by (simp add: safe_def)
  then have en: "e < nextId s0" using wf0 by (rule placed_old)
  have "\<exists>st'. run g ps s0 = Inr st' \<and> grown ps s0 st' \<and> ?Q ?els st'"
  proof (rule run_invariant [OF wf0 safe])
    show "?Q [] s0" by simp
  next
    fix pre t st
    assume t: "t \<in> set ?els" and pl: "placed t s0" and g: "grown ps s0 st" and Q: "?Q pre st"
    have wf: "wf st" using g by (rule grownD)
    have tn: "t < nextId s0" using pl wf0 by (rule placed_old)
    show "?Q (pre @ [t]) (step g ps t st)"
    proof (cases "skips ps t st")
      case True
      then have same: "step g ps t st = st" by (simp add: step_def)
      show ?thesis
      proof (cases "t = e")
        case False
        with Q same show ?thesis by simp
      next
        case te: True
        show ?thesis
        proof (cases "e \<in> set pre")
          case True
          with Q same te show ?thesis by simp
        next
          case False
          with Q have ch: "chain e (forest st) = chain e (forest s0)" by simp
          have "owns ps s0 e (step g ps e st) (nextId st)"
            using wf0 g ple cl ch by (rule own_step_self)
          then show ?thesis using te by auto
        qed
      qed
    next
      case ns: False
      show ?thesis
      proof (cases "t = e")
        case te: True
        show ?thesis
        proof (cases "e \<in> set pre")
          case True
          with Q obtain w where "owns ps s0 e st w" by blast
          with wf have "skips ps e st" by (rule owns_skips)
          with ns te show ?thesis by simp
        next
          case False
          with Q have ch: "chain e (forest st) = chain e (forest s0)" by simp
          have "owns ps s0 e (step g ps e st) (nextId st)"
            using wf0 g ple cl ch by (rule own_step_self)
          then show ?thesis using te by auto
        qed
      next
        case ne: False
        from ns have "\<not> excluded ps t st" by (simp add: skips_def)
        then have nx: "\<not> excluded ps t s0" using grown_excluded [OF g tn] by simp
        have "topmost ps e s0" using cl by (simp add: clear_def)
        then have tc: "t \<notin> set (chain e (forest s0))"
          using wf0 t ne nx by (intro topmost_not_ancestor)
        from g wf0 pl ns have "placed t st" by (rule grown_unskipped)
        then have tin: "t \<in> set (ids (forest st))" by (rule placed_in)
        have st': "step g ps t st = decorated (wrapperAttrs g ps st t) (layerAttrs ps) t st"
          using ns by (simp add: step_def)
        show ?thesis
        proof (cases "e \<in> set pre")
          case True
          with Q obtain w where "owns ps s0 e st w" by blast
          with wf0 g pl tc ne ns have "owns ps s0 e (step g ps t st) w"
            by (rule own_step_other)
          with True show ?thesis by auto
        next
          case False
          with Q have ch: "chain e (forest st) = chain e (forest s0)" by simp
          have "e < nextId st" using en grownD(2) [OF g] by simp
          then have "chain e (forest (step g ps t st)) =
              concat (map (\<lambda>i. if i = t then [t, nextId st] else [i]) (chain e (forest s0)))"
            unfolding st' using chain_decorated [OF wf tin] ch by simp
          also have "\<dots> = chain e (forest s0)" using tc by (rule concat_map_pair_id)
          finally show ?thesis using False ne by simp
        qed
      qed
    qed
  qed
  with e show ?thesis by blast
qed

lemma run_parent_kept:
  assumes wf0: "wf s0" and safe: "safe ps s0"
    and e: "e \<in> set (ids (forest s0))" and x: "excluded ps e s0"
  shows "\<exists>st'. run g ps s0 = Inr st' \<and> grown ps s0 st' \<and> parentNode e st' = parentNode e s0"
proof -
  let ?Q = "\<lambda>pre st. parentNode e st = parentNode e s0"
  have en: "e < nextId s0" using wfD(2) [OF wf0] e by blast
  have "\<exists>st'. run g ps s0 = Inr st' \<and> grown ps s0 st' \<and>
          ?Q (querySelectorAll (selectors ps) s0) st'"
  proof (rule run_invariant [OF wf0 safe])
    show "?Q [] s0" by simp
  next
    fix pre :: "nat list" and t st
    assume pl: "placed t s0" and g: "grown ps s0 st" and Q: "?Q pre st"
    have wf: "wf st" using g by (rule grownD)
    show "?Q (pre @ [t]) (step g ps t st)"
    proof (cases "skips ps t st")
      case True
      with Q show ?thesis by (simp add: step_def)
    next
      case False
      from g wf0 pl False have "placed t st" by (rule grown_unskipped)
      then have tin: "t \<in> set (ids (forest st))" by (rule placed_in)
      have "excluded ps e st" using x grown_excluded [OF g en] by simp
      then have "skips ps e st" by (simp add: skips_def)
      with False have ne: "e \<noteq> t" by auto
      have "e < nextId st" using en grownD(2) [OF g] by simp
      then have "e \<notin> set (layerIds (nextId st) (layerAttrs ps))" "e \<noteq> nextId st"
        using layerIds_gt [of e "nextId st" "layerAttrs ps"] by auto
      with ne Q False show ?thesis
        using parentNode_decorated [OF wf tin, of e "wrapperAttrs g ps st t" "layerAttrs ps"]
        by (simp add: step_def)
    qed
  qed
  then show ?thesis by blast
qed

section \<open>Document order\<close>

lemma precedes_split:
  assumes "distinct l" and "l = ys @ zs" and "x \<in> set ys" and "y \<in> set zs"
  shows "precedes x y l"
proof -
  from assms have "x \<noteq> y" by auto
  moreover have "dropWhile (\<lambda>z. z \<noteq> x) (ys @ zs) = dropWhile (\<lambda>z. z \<noteq> x) ys @ zs"
    using assms(3) by (simp add: dropWhile_append1 [of x])
  ultimately show ?thesis using assms(2,4) by (simp add: precedes_def)
qed

lemma split_precedes:
  assumes "precedes x y l"
  shows "\<exists>ys zs. l = ys @ zs \<and> x \<in> set ys \<and> y \<in> set zs"
proof -
  let ?P = "\<lambda>z. z \<noteq> x"
  from assms have ne: "x \<noteq> y" and y: "y \<in> set (dropWhile ?P l)" by (auto simp: precedes_def)
  have ne': "dropWhile ?P l \<noteq> []"
  proof
    assume "dropWhile ?P l = []"
    with y have "y \<in> set ([] :: nat list)" by (simp only:)
    then show False by simp
  qed
  then have "hd (dropWhile ?P l) = x" using hd_dropWhile [of ?P l] by simp
  with ne' obtain r where r: "dropWhile ?P l = x # r"
    by (cases "dropWhile ?P l") simp_all
  have "l = (takeWhile ?P l @ [x]) @ r" using takeWhile_dropWhile_id [of ?P l] r by simp
  moreover have "y \<in> set r" using y r ne by auto
  ultimately show ?thesis by (intro exI [of _ "takeWhile ?P l @ [x]"] exI [of _ r]) simp
qed

lemma ids_decorated_list:
  assumes "wf st"
  shows "ids (forest (decorated wa las e st)) =
     concat (map (\<lambda>i. if i = e then nextId st # layerIds (nextId st) las @ [i] else [i])
       (ids (forest st)))"
  using assms by (simp add: ids_wrapF wfD)

lemma mem_concat_map:
  "r \<in> set ys \<Longrightarrow> r' \<in> set (f r) \<Longrightarrow> r' \<in> set (concat (map f ys))"
  by auto

lemma outer_step:
  assumes wf0: "wf s0" and g: "grown ps s0 st" and pl: "placed t s0"
    and ns: "\<not> skips ps t st" and x: "x < nextId s0"
  shows "outer (nextId s0) (decorated wa las t st) x \<in>
           set (if outer (nextId s0) st x = t
                then nextId st # layerIds (nextId st) las @ [outer (nextId s0) st x]
                else [outer (nextId s0) st x])"
proof -
  have wf: "wf st" using g by (rule grownD)
  from g wf0 pl ns have pt: "placed t st" and par: "parentNode t st = parentNode t s0"
    by (rule grown_unskipped)+
  from pt have tin: "t \<in> set (ids (forest st))" by (rule placed_in)
  have tn: "t < nextId s0" using pl wf0 by (rule placed_old)
  have n0: "nextId s0 \<le> nextId st" using g by (rule grownD)
  from pl obtain p where p: "parentNode t s0 = Some p"
    by (auto simp: placed_def split: option.splits)
  then have "p \<in> set (ids (forest s0))" using parentOf_in_ids by (auto simp: parentNode_def)
  then have "p < nextId s0" using wfD(2) [OF wf0] by blast
  with p par have ot: "outer (nextId s0) st t = t" by (simp add: outer_def)
  have xl: "x \<notin> set (layerIds (nextId st) las)" "x \<noteq> nextId st"
    using x n0 layerIds_gt [of x "nextId st" las] by auto
  show ?thesis
  proof (cases "x = t")
    case True
    have "parentNode t (decorated wa las t st) = Some (nextId st)"
      using parentNode_decorated [OF wf tin, of t wa las] by simp
    then have "outer (nextId s0) (decorated wa las t st) t = nextId st"
      using n0 by (simp add: outer_def)
    with True ot show ?thesis by simp
  next
    case False
    have "parentNode x (decorated wa las t st) = parentNode x st"
      using parentNode_decorated [OF wf tin, of x wa las] False xl by simp
    then have "outer (nextId s0) (decorated wa las t st) x = outer (nextId s0) st x"
      by (simp add: outer_def)
    then show ?thesis by simp
  qed
qed

lemma run_order:
  assumes wf0: "wf s0" and safe: "safe ps s0"
    and a: "a < nextId s0" and b: "b < nextId s0"
    and ab: "precedes a b (ids (forest s0))"
  shows "\<exists>st'. run g ps s0 = Inr st' \<and> grown ps s0 st' \<and>
           precedes (outer (nextId s0) st' a) (outer (nextId s0) st' b) (ids (forest st'))"
proof -
  let ?o = "outer (nextId s0)"
  let ?Q = "\<lambda>pre st. \<exists>ys zs. ids (forest st) = ys @ zs \<and> ?o st a \<in> set ys \<and> ?o st b \<in> set zs"
  have o0: "\<And>x. x < nextId s0 \<Longrightarrow> ?o s0 x = x"
  proof -
    fix x assume "x < nextId s0"
    show "?o s0 x = x"
    proof (cases "parentNode x s0")
      case None
      then show ?thesis by (simp add: outer_def)
    next
      case (Some p)
      then have "p \<in> set (ids (forest s0))" using parentOf_in_ids by (auto simp: parentNode_def)
      then have "p < nextId s0" using wfD(2) [OF wf0] by blast
      with Some show ?thesis by (simp add: outer_def)
    qed
  qed
  have "\<exists>st'. run g ps s0 = Inr st' \<and> grown ps s0 st' \<and>
          ?Q (querySelectorAll (selectors ps) s0) st'"
  proof (rule run_invariant [OF wf0 safe])
    show "?Q [] s0" using split_precedes [OF ab] o0 [OF a] o0 [OF b] by simp
  next
    fix pre :: "nat list" and t st
    assume pl: "placed t s0" and g: "grown ps s0 st" and Q: "?Q pre st"
    have wf: "wf st" using g by (rule grownD)
    show "?Q (pre @ [t]) (step g ps t st)"
    proof (cases "skips ps t st")
      case True
      with Q show ?thesis by (simp add: step_def)
    next
      case False
      let ?wa = "wrapperAttrs g ps st t" and ?las = "layerAttrs ps"
      let ?st' = "decorated ?wa ?las t st"
      let ?f = "\<lambda>i. if i = t then nextId st # layerIds (nextId st) ?las @ [i] else [i]"
      from Q obtain ys zs where s: "ids (forest st) = ys @ zs" "?o st a \<in> set ys"
        "?o st b \<in> set zs" by blast
      have st': "step g ps t st = ?st'" using False by (simp add: step_def)
      have A: "ids (forest ?st') = concat (map ?f ys) @ concat (map ?f zs)"
        using ids_decorated_list [OF wf, of ?wa ?las t] s(1) by simp
      have "?o ?st' a \<in> set (?f (?o st a))"
        using outer_step [OF wf0 g pl False a, of ?wa ?las] by (simp split: if_splits)
      with s(2) have B: "?o ?st' a \<in> set (concat (map ?f ys))" by (rule mem_concat_map)
      have "?o ?st' b \<in> set (?f (?o st b))"
        using outer_step [OF wf0 g pl False b, of ?wa ?las] by (simp split: if_splits)
      with s(3) have C: "?o ?st' b \<in> set (concat (map ?f zs))" by (rule mem_concat_map)
      show ?thesis unfolding st' using A B C by blast
    qed
  qed
  then obtain st' ys zs where r: "run g ps s0 = Inr st'" "grown ps s0 st'"
    "ids (forest st') = ys @ zs" "?o st' a \<in> set ys" "?o st' b \<in> set zs" by blast
  have "distinct (ids (forest st'))" using grownD(1) [OF r(2)] by (rule wfD)
  then have "precedes (?o st' a) (?o st' b) (ids (forest st'))"
    using r(3,4,5) by (rule precedes_split)
  with r show ?thesis by blast
qed

section \<open>Excluded elements and elements without a parent\<close>

lemma run_chain_kept:
  assumes wf0: "wf s0" and safe: "safe ps s0"
    and e: "e \<in> set (ids (forest s0))" and x: "excluded ps e s0" and top: "topmost ps e s0"
  shows "\<exists>st'. run g ps s0 = Inr st' \<and> grown ps s0 st' \<and>
           chain e (forest st') = chain e (forest s0)"
proof -
  let ?Q = "\<lambda>pre st. chain e (forest st) = chain e (forest s0)"
  have en: "e < nextId s0" using wfD(2) [OF wf0] e by blast
  have "\<exists>st'. run g ps s0 = Inr st' \<and> grown ps s0 st' \<and>
          ?Q (querySelectorAll (selectors ps) s0) st'"
  proof (rule run_invariant [OF wf0 safe])
    show "?Q [] s0" by simp
  next
    fix pre :: "nat list" and t st
    assume t: "t \<in> set (querySelectorAll (selectors ps) s0)"
      and pl: "placed t s0" and g: "grown ps s0 st" and Q: "?Q pre st"
    have wf: "wf st" using g by (rule grownD)
    have tn: "t < nextId s0" using pl wf0 by (rule placed_old)
    show "?Q (pre @ [t]) (step g ps t st)"
    proof (cases "skips ps t st")
      case True
      with Q show ?thesis by (simp add: step_def)
    next
      case False
      from g wf0 pl False have "placed t st" by (rule grown_unskipped)
      then have tin: "t \<in> set (ids (forest st))" by (rule placed_in)
      have "excluded ps e st" using x grown_excluded [OF g en] by simp
      then have "skips ps e st" by (simp add: skips_def)
      with False have ne: "t \<noteq> e" by auto
      from False have "\<not> excluded ps t st" by (simp add: skips_def)
      then have nx: "\<not> excluded ps t s0" using grown_excluded [OF g tn] by simp
      have tc: "t \<notin> set (chain e (forest s0))"
        using wf0 top t ne nx by (rule topmost_not_ancestor)
      have "e < nextId st" using en grownD(2) [OF g] by simp
      then have "chain e (forest (step g ps t st)) =
          concat (map (\<lambda>i. if i = t then [t, nextId st] else [i]) (chain e (forest s0)))"
        using False chain_decorated [OF wf tin] Q by (simp add: step_def)
      also have "\<dots> = chain e (forest s0)" using tc by (rule concat_map_pair_id)
      finally show ?thesis .
    qed
  qed
  then show ?thesis by blast
qed

lemma grown_closest_None:
  assumes wf0: "wf s0" and g: "grown ps s0 st"
    and ch: "chain e (forest st) = chain e (forest s0)" and c: "closest e c s0 = None"
  shows "closest e c st = None"
proof -
  have "\<And>i. i \<in> set (chain e (forest s0)) \<Longrightarrow> \<not> has_class c st i"
  proof -
    fix i assume i: "i \<in> set (chain e (forest s0))"
    then have "i < nextId s0" using wf0 by (rule chain_old [rotated])
    with g have "has_class c st i = has_class c s0 i" by (rule grown_has_class)
    with c i show "\<not> has_class c st i" by (simp add: closest_None_iff)
  qed
  then show ?thesis by (simp add: closest_None_iff ch)
qed

lemma parentOf_below: "x \<in> set (ids ks) \<Longrightarrow> parentOf x (Node j a ks # ts) \<noteq> None"
  using parentOf_None_kids [of x ks] by (auto split: option.splits)

lemma query_has_parent:
  assumes wfd: "well_formed st" and x: "x \<in> set (querySelectorAll (selectors ps) st)"
  shows "parentNode x st \<noteq> None"
proof -
  from wfd obtain a0 ks where f: "forest st = [Node document a0 ks]" and wf: "wf st"
    by (rule well_formedD)
  from x have "x \<in> set (ids ks)" by (force simp: querySelectorAll_def f ids_def)
  then show ?thesis unfolding parentNode_def f by (rule parentOf_below)
qed

lemma parentOf_detached: "parentOf e (Node n a [] # F) = parentOf e F"
  by simp

lemma lookup_detached: "x \<noteq> n \<Longrightarrow> lookup x (Node n a [] # F) = lookup x F"
  by simp

lemma callback_parentless:
  assumes ns: "\<not> skips ps e st" and par: "parentNode e st = None"
  shows "\<exists>D k. callback g ps e st = Inl (TypeError, \<lparr>forest = D @ forest st, nextId = k\<rparr>) \<and>
           (\<forall>i \<in> set (ids D). nextId st \<le> i)"
proof (cases ps)
  case Inputs1
  let ?c = "''input-animated-wrapper''"
  let ?st2 = "\<lparr>forest = Node (nextId st) (div_with ?c) [] # forest st, nextId = Suc (nextId st)\<rparr>"
  let ?iw = "if style_width e ?st2 \<noteq> [] then style_width e ?st2 else g ?st2 e"
  let ?wa = "(div_with ?c)\<lparr>styleWidth := ?iw\<rparr>"
  let ?st3 = "\<lparr>forest = Node (nextId st) ?wa [] # forest st, nextId = Suc (nextId st)\<rparr>"
  let ?X = "if ?iw \<noteq> [] then set_style_width (nextId st) ?iw ?st2 else ?st2"
  have X: "?X = ?st3"
    by (simp add: set_style_width_def set_attrs_def div_with_def)
  from ns Inputs1 have g: "closest e ?c st = None" "\<not> classList_contains e ''search-input'' st"
    by (simp_all add: skips_def excluded_def)
  have "wrap_input1 g e st =
      (case parentNode e ?X of None \<Rightarrow> Inl (TypeError, ?X)
       | Some parent \<Rightarrow> andThen (insertBefore parent (nextId st) e ?X) (appendChild (nextId st) e))"
    unfolding wrap_input1_def
    by (simp add: g Let_def split_def create_div createElement_fst split del: if_split
          cong: if_cong option.case_cong)
  moreover have "parentNode e ?st3 = None" using par by (simp add: parentNode_def)
  ultimately have "wrap_input1 g e st = Inl (TypeError, ?st3)" unfolding X by simp
  then show ?thesis using Inputs1 by (intro exI [of _ "[Node (nextId st) ?wa []]"]) simp
next
  case Buttons1
  from ns Buttons1 have g: "closest e ''btn-animated-wrapper'' st = None"
    "\<not> classList_contains e ''nav-btn'' st" "\<not> classList_contains e ''tab-btn'' st"
    "\<not> classList_contains e ''card-btn'' st"
    by (simp_all add: skips_def excluded_def)
  show ?thesis using Buttons1 par
    by (intro exI [of _ "[Node (nextId st) (div_with ''btn-animated-wrapper'') []]"])
       (simp add: wrap_button1_def g Let_def split_def create_div createElement_fst
          parentNode_def)
next
  case Inputs2
  from ns Inputs2 have g: "closest e ''input-animated-wrapper'' st = None"
    by (simp_all add: skips_def excluded_def)
  show ?thesis using Inputs2 par
    by (intro exI [of _ "[Node (Suc (Suc (Suc (nextId st)))) (div_with ''border-input'') [],
          Node (Suc (Suc (nextId st))) (div_with ''darkBorderBg-input'') [],
          Node (Suc (nextId st)) (div_with ''glow-input'') [],
          Node (nextId st) (div_with ''input-animated-wrapper'') []]"])
       (simp add: wrap_input2_def g Let_def split_def createElement_def set_className_def
          set_attrs_def div_with_def parentNode_def)
next
  case Buttons2
  from ns Buttons2 have g: "closest e ''btn-animated-wrapper'' st = None"
    "\<not> classList_contains e ''nav-btn'' st" "\<not> classList_contains e ''tab-btn'' st"
    by (simp_all add: skips_def excluded_def)
  show ?thesis using Buttons2 par
    by (intro exI [of _ "[Node (Suc (Suc (Suc (nextId st)))) (div_with ''border-btn'') [],
          Node (Suc (Suc (nextId st))) (div_with ''darkBorderBg-btn'') [],
          Node (Suc (nextId st)) (div_with ''glow-btn'') [],
          Node (nextId st) ((div_with ''btn-animated-wrapper'')\<lparr>styleDisplay := ''inline-block''\<rparr>) []]"])
       (simp add: wrap_button2_def g Let_def split_def createElement_def set_className_def
          set_style_display_def set_attrs_def div_with_def parentNode_def)
qed

lemma parentless_raises:
  assumes wf: "wf st" and ns: "\<not> skips ps e st" and par: "parentNode e st = None"
  shows "raised (callback g ps e st) = Some TypeError"
    and "\<forall>x \<in> set (ids (forest st)).
           lookup x (forest (final (callback g ps e st))) = lookup x (forest st)"
proof -
  from callback_parentless [OF ns par, of g] obtain D k where
    c: "callback g ps e st = Inl (TypeError, \<lparr>forest = D @ forest st, nextId = k\<rparr>)"
    and D: "\<forall>i \<in> set (ids D). nextId st \<le> i" by blast
  show "raised (callback g ps e st) = Some TypeError" by (simp add: c raised_def)
  show "\<forall>x \<in> set (ids (forest st)).
           lookup x (forest (final (callback g ps e st))) = lookup x (forest st)"
  proof
    fix x assume "x \<in> set (ids (forest st))"
    then have "x < nextId st" using wfD(2) [OF wf] by blast
    with D have "x \<notin> set (ids D)" by auto
    then show "lookup x (forest (final (callback g ps e st))) = lookup x (forest st)"
      by (simp add: c final_def lookup_skip)
  qed
qed

lemma well_formed_wf: "well_formed st \<Longrightarrow> wf st"
  by (erule well_formedD)

lemma layerIds_map: "layerIds w las = map (\<lambda>k. Suc w + k) [0..<length las]"
  unfolding layerIds_def by (induction las rule: rev_induct) simp_all

lemma owns_layer_classes:
  assumes "owns ps s0 e st w"
  shows "map (\<lambda>l. map_option classList (attrsOf l st)) (layerIds w (layerAttrs ps)) =
           map (\<lambda>c. Some [c]) (layerClasses ps)"
proof -
  from assms have la: "\<And>k. k < length (layerAttrs ps) \<Longrightarrow>
      attrsOf (Suc w + k) st = Some (layerAttrs ps ! k)"
    by (simp add: owns_def)
  have len: "length (layerAttrs ps) = length (layerClasses ps)" by (simp add: layerAttrs_def)
  show ?thesis
  proof (rule nth_equalityI)
    show "length (map (\<lambda>l. map_option classList (attrsOf l st)) (layerIds w (layerAttrs ps))) =
          length (map (\<lambda>c. Some [c]) (layerClasses ps))"
      by (simp add: length_layerIds len)
  next
    fix i assume "i < length (map (\<lambda>l. map_option classList (attrsOf l st))
                      (layerIds w (layerAttrs ps)))"
    then have i: "i < length (layerAttrs ps)" by (simp add: length_layerIds)
    then have "layerIds w (layerAttrs ps) ! i = Suc w + i" by (simp add: layerIds_map)
    moreover have "classList (layerAttrs ps ! i) = [layerClasses ps ! i]"
      using i by (simp add: layerAttrs_def div_with_def)
    ultimately show "map (\<lambda>l. map_option classList (attrsOf l st)) (layerIds w (layerAttrs ps)) ! i
        = map (\<lambda>c. Some [c]) (layerClasses ps) ! i"
      using i la [OF i] len by (simp add: length_layerIds)
  qed
qed

lemma owns_has_class:
  "owns ps s0 e st w \<Longrightarrow> has_class (wrapperClass ps) st w"
  by (auto simp: owns_def split: option.splits intro: is_wrapper_has_class)

lemma owns_outer: "owns ps s0 e st w \<Longrightarrow> outer (nextId s0) st e = w"
  by (simp add: owns_def outer_def)

lemma created_display:
  assumes "is_wrapper ps a \<or> is_layer ps a"
  shows "styleDisplay a =
           (if ps = Buttons2 \<and> classList a = [wrapperClass ps] then ''inline-block'' else [])"
  using assms
proof
  assume "is_wrapper ps a"
  then have "styleDisplay (a\<lparr>styleWidth := []\<rparr>) =
       (if ps = Buttons2 then ''inline-block'' else [])"
    "classList (a\<lparr>styleWidth := []\<rparr>) = [wrapperClass ps]"
    unfolding is_wrapper_def by (simp_all add: div_with_def)
  then show ?thesis by simp
next
  assume "is_layer ps a"
  then show ?thesis
    by (cases ps) (auto simp: is_layer_def layerAttrs_def div_with_def)
qed

section \<open>Ancestors are visited first: at most one wrapper per element\<close>

lemma chain_suffix:
  "a \<in> set (chain x F) \<Longrightarrow> distinct (ids F) \<Longrightarrow> \<exists>l. chain x F = l @ chain a F"
proof (induction x F rule: chain.induct)
  case (1 i)
  then show ?case by simp
next
  case (2 i j a0 ks ts)
  from "2.prems"(2) have dk: "distinct (ids ks)" and dt: "distinct (ids ts)"
    and jk: "j \<notin> set (ids ks)" and jt: "j \<notin> set (ids ts)"
    and kt: "set (ids ks) \<inter> set (ids ts) = {}" by auto
  show ?case
  proof (cases "i = j")
    case True
    with "2.prems"(1) show ?thesis by simp
  next
    case ne: False
    show ?thesis
    proof (cases "chain i ks")
      case Nil
      with ne "2.prems"(1) have a: "a \<in> set (chain i ts)" by simp
      then have ats: "a \<in> set (ids ts)" using chain_subset by blast
      with jt kt have "a \<noteq> j" "a \<notin> set (ids ks)" by auto
      then have "chain a (Node j a0 ks # ts) = chain a ts" by (simp add: chain_notin)
      moreover from "2.IH"(2) [OF ne Nil a dt] obtain l where "chain i ts = l @ chain a ts" ..
      ultimately show ?thesis using ne Nil by simp
    next
      case (Cons c cs)
      show ?thesis
      proof (cases "a = j")
        case True
        with ne Cons show ?thesis by simp
      next
        case False
        with ne Cons "2.prems"(1) have a: "a \<in> set (chain i ks)" by simp
        then have "a \<in> set (ids ks)" using chain_subset by blast
        then obtain d ds where ca: "chain a ks = d # ds"
          using chain_Nil_iff [of a ks] by (cases "chain a ks") auto
        from "2.IH"(1) [OF ne a dk] obtain l where l: "chain i ks = l @ chain a ks" ..
        have "chain i (Node j a0 ks # ts) = chain i ks @ [j]" using ne Cons by simp
        moreover have "chain a (Node j a0 ks # ts) = chain a ks @ [j]" using False ca by simp
        ultimately have "chain i (Node j a0 ks # ts) = l @ chain a (Node j a0 ks # ts)"
          using l by simp
        then show ?thesis ..
      qed
    qed
  qed
qed

lemma chain_linear:
  assumes d: "distinct (ids F)" and a: "a \<in> set (chain x F)" and b: "b \<in> set (chain x F)"
  shows "a \<in> set (chain b F) \<or> b \<in> set (chain a F)"
proof -
  from chain_suffix [OF a d] obtain l1 where 1: "chain x F = l1 @ chain a F" ..
  from chain_suffix [OF b d] obtain l2 where 2: "chain x F = l2 @ chain b F" ..
  have ia: "a \<in> set (chain a F)" and ib: "b \<in> set (chain b F)"
    using a b chain_subset [of x F] chain_self by blast+
  from 1 2 have "l1 @ chain a F = l2 @ chain b F" by simp
  then obtain us where "l1 = l2 @ us \<and> us @ chain a F = chain b F \<or>
      l1 @ us = l2 \<and> chain a F = us @ chain b F"
    unfolding append_eq_append_conv2 by blast
  then show ?thesis
  proof
    assume "l1 = l2 @ us \<and> us @ chain a F = chain b F"
    then have "set (chain a F) \<subseteq> set (chain b F)" by (metis set_append sup_ge2)
    with ia show ?thesis by blast
  next
    assume "l1 @ us = l2 \<and> chain a F = us @ chain b F"
    then have "set (chain b F) \<subseteq> set (chain a F)" by (metis set_append sup_ge2)
    with ib show ?thesis by blast
  qed
qed

lemma chain_precedes:
  "a \<in> set (chain c F) \<Longrightarrow> a \<noteq> c \<Longrightarrow> \<exists>l1 l2 l3. ids F = l1 @ a # l2 @ c # l3"
proof (induction c F rule: chain.induct)
  case (1 i)
  then show ?case by simp
next
  case (2 i j a0 ks ts)
  show ?case
  proof (cases "i = j")
    case True
    with "2.prems" show ?thesis by simp
  next
    case ne: False
    show ?thesis
    proof (cases "chain i ks")
      case Nil
      with ne "2.prems"(1) have "a \<in> set (chain i ts)" by simp
      from "2.IH"(2) [OF ne Nil this "2.prems"(2)] obtain l1 l2 l3 where
        "ids ts = l1 @ a # l2 @ i # l3" by blast
      then have "ids (Node j a0 ks # ts) = (j # ids ks @ l1) @ a # l2 @ i # l3" by simp
      then show ?thesis by blast
    next
      case (Cons c cs)
      then have "i \<in> set (ids ks)" by (rule chain_Cons_in)
      then obtain m1 m2 where m: "ids ks = m1 @ i # m2" by (auto simp: in_set_conv_decomp)
      show ?thesis
      proof (cases "a = j")
        case True
        with m have "ids (Node j a0 ks # ts) = [] @ a # m1 @ i # (m2 @ ids ts)" by simp
        then show ?thesis by blast
      next
        case False
        with ne Cons "2.prems"(1) have "a \<in> set (chain i ks)" by simp
        from "2.IH"(1) [OF ne this "2.prems"(2)] obtain l1 l2 l3 where
          "ids ks = l1 @ a # l2 @ i # l3" by blast
        then have "ids (Node j a0 ks # ts) = (j # l1) @ a # l2 @ i # (l3 @ ids ts)" by simp
        then show ?thesis by blast
      qed
    qed
  qed
qed

lemma filtered_order:
  "map fst (filter P N) = pre @ e # post \<Longrightarrow> c \<in> set pre \<Longrightarrow>
   \<exists>l1 l2 l3. map fst N = l1 @ c # l2 @ e # l3"
proof (induction N arbitrary: pre)
  case Nil
  then show ?case by simp
next
  case (Cons n N)
  show ?case
  proof (cases "P n")
    case False
    with Cons.prems have "map fst (filter P N) = pre @ e # post" by simp
    from Cons.IH [OF this Cons.prems(2)] obtain l1 l2 l3 where
      "map fst N = l1 @ c # l2 @ e # l3" by blast
    then have "map fst (n # N) = (fst n # l1) @ c # l2 @ e # l3" by simp
    then show ?thesis by blast
  next
    case True
    from Cons.prems(2) obtain p pre' where p: "pre = p # pre'" by (cases pre) auto
    with True Cons.prems(1) have h: "p = fst n" "map fst (filter P N) = pre' @ e # post"
      by simp_all
    show ?thesis
    proof (cases "c \<in> set pre'")
      case True
      from Cons.IH [OF h(2) True] obtain l1 l2 l3 where
        "map fst N = l1 @ c # l2 @ e # l3" by blast
      then have "map fst (n # N) = (fst n # l1) @ c # l2 @ e # l3" by simp
      then show ?thesis by blast
    next
      case False
      with Cons.prems(2) p h(1) have c: "c = fst n" by simp
      have "e \<in> set (map fst (filter P N))" using h(2) by simp
      then have "e \<in> set (map fst N)" by auto
      then obtain m1 m2 where "map fst N = m1 @ e # m2" by (auto simp: in_set_conv_decomp)
      with c have "map fst (n # N) = [] @ c # m1 @ e # m2" by simp
      then show ?thesis by blast
    qed
  qed
qed

lemma two_orders:
  assumes "distinct l" and 1: "l = l1 @ c # l2 @ e # l3" and 2: "l = m1 @ e # m2 @ c # m3"
  shows False
proof -
  from assms(1) 1 have c: "c \<notin> set l1" "c \<notin> set (l2 @ e # l3)" and e: "e \<notin> set l1" by auto
  from 1 2 have "l1 @ c # (l2 @ e # l3) = (m1 @ e # m2) @ c # m3" by simp
  with c have "l1 = m1 @ e # m2 \<and> l2 @ e # l3 = m3" by (rule append_Cons_eq_iff [THEN iffD1])
  then have "l1 = m1 @ e # m2" ..
  with e show False by simp
qed

lemma query_preorder:
  assumes wf: "well_formed s0" and q: "querySelectorAll sels s0 = pre @ e # post"
    and c: "c \<in> set pre"
  shows "e \<notin> set (chain c (forest s0))" and "c \<noteq> e"
proof -
  from wf obtain a ks where F: "forest s0 = [Node document a ks]" and wf0: "wf s0"
    by (rule well_formedD)
  have d: "distinct (document # ids ks)" using wfD(1) [OF wf0] F by simp
  let ?P = "\<lambda>(i, a). matches_any sels a"
  from q F have m: "map fst (filter ?P (nodes ks)) = pre @ e # post"
    by (simp add: querySelectorAll_def)
  from filtered_order [OF m c] obtain l1 l2 l3 where
    1: "ids ks = l1 @ c # l2 @ e # l3" by (auto simp: ids_def)
  with d show ne: "c \<noteq> e" by auto
  from 1 d have cd: "c \<noteq> document" "e \<noteq> document" by auto
  show "e \<notin> set (chain c (forest s0))"
  proof
    assume "e \<in> set (chain c (forest s0))"
    with F cd have "e \<in> set (chain c ks)" by (auto split: list.splits)
    from chain_precedes [OF this] ne obtain m1 m2 m3 where
      "ids ks = m1 @ e # m2 @ c # m3" by blast
    with d 1 show False using two_orders [of "ids ks" l1 c l2 e l3 m1 m2 m3] by simp
  qed
qed

lemma forEach_prefix_invariant:
  assumes wf0: "wf s0"
    and step: "\<And>pre e post st. els = pre @ e # post \<Longrightarrow> grown ps s0 st \<Longrightarrow> Q pre st \<Longrightarrow>
        grown ps s0 (step g ps e st) \<Longrightarrow> Q (pre @ [e]) (step g ps e st)"
  shows "grown ps s0 st \<Longrightarrow> Q pre st \<Longrightarrow> els = pre @ xs \<Longrightarrow> \<forall>e \<in> set xs. placed e s0 \<Longrightarrow>
         \<exists>st'. forEach (callback g ps) xs st = Inr st' \<and> grown ps s0 st' \<and> Q els st'"
proof (induction xs arbitrary: st pre)
  case Nil
  then show ?case by simp
next
  case (Cons x xs)
  from Cons.prems have pl: "placed x s0" by auto
  from grown_step [OF Cons.prems(1) wf0 pl, of g]
  have cb: "callback g ps x st = Inr (step g ps x st)" and g': "grown ps s0 (step g ps x st)"
    by auto
  have Q': "Q (pre @ [x]) (step g ps x st)" using step [OF Cons.prems(3,1,2) g'] .
  from Cons.prems(3) have e: "els = (pre @ [x]) @ xs" by simp
  from Cons.prems(4) have "\<forall>e \<in> set xs. placed e s0" by simp
  from Cons.IH [OF g' Q' e this] obtain st' where
    "forEach (callback g ps) xs (step g ps x st) = Inr st'" "grown ps s0 st'" "Q els st'"
    by auto
  then show ?case using cb by (simp add: andThen_Inr)
qed

lemma run_prefix_invariant:
  assumes wf0: "wf s0" and safe: "safe ps s0" and Q0: "Q [] s0"
    and step: "\<And>pre e post st. querySelectorAll (selectors ps) s0 = pre @ e # post \<Longrightarrow>
        grown ps s0 st \<Longrightarrow> Q pre st \<Longrightarrow>
        grown ps s0 (step g ps e st) \<Longrightarrow> Q (pre @ [e]) (step g ps e st)"
  shows "\<exists>st'. run g ps s0 = Inr st' \<and> grown ps s0 st' \<and>
           Q (querySelectorAll (selectors ps) s0) st'"
proof -
  let ?els = "querySelectorAll (selectors ps) s0"
  have pl: "\<forall>e \<in> set ?els. placed e s0" using safe by (simp add: safe_def)
  have e: "?els = [] @ ?els" by simp
  have "\<exists>st'. forEach (callback g ps) ?els s0 = Inr st' \<and> grown ps s0 st' \<and> Q ?els st'"
    using wf0 step grown_refl [OF wf0] Q0 e pl
    by (rule forEach_prefix_invariant [where els = ?els and Q = Q and pre = "[]" and xs = ?els])
  then show ?thesis by (simp add: run_forEach)
qed

lemma filter_concat_pair:
  "\<not> P w \<Longrightarrow> filter P (concat (map (\<lambda>i. if i = e then [e, w] else [i]) l)) = filter P l"
  by (induction l) auto

lemma length_filter_concat_pair:
  assumes "P' w" and "\<not> P' e" and "\<forall>i \<in> set l. P' i = P i"
  shows "length (filter P' (concat (map (\<lambda>i. if i = e then [e, w] else [i]) l))) =
           length (filter P l) + length (filter (\<lambda>i. i = e) l)"
  using assms(3)
proof (induction l)
  case Nil
  then show ?case by simp
next
  case (Cons i l)
  then have IH: "length (filter P' (concat (map (\<lambda>i. if i = e then [e, w] else [i]) l))) =
      length (filter P l) + length (filter (\<lambda>i. i = e) l)" by simp
  from Cons.prems have i: "P' i = P i" by simp
  show ?case
  proof (cases "i = e")
    case True
    with i assms(1,2) IH show ?thesis by simp
  next
    case False
    with i IH show ?thesis by simp
  qed
qed

lemma length_filter_eq:
  "distinct l \<Longrightarrow> length (filter (\<lambda>i. i = e) l) = (if e \<in> set l then 1 else 0)"
  by (induction l) auto

lemma layer_not_wrapper:
  "a \<in> set (layerAttrs ps) \<Longrightarrow> wrapperClass ps \<notin> set (classList a)"
  by (cases ps) (auto simp: layerAttrs_def div_with_def)

lemma has_class_in_ids: "has_class c st i \<Longrightarrow> i \<in> set (ids (forest st))"
  using attrsOf_None_iff [of i st] by (auto simp: has_class_def split: option.splits)

lemma new_wrapper_chain:
  assumes wf: "wf st" and pl: "placed e st" and ns: "closest e c st = None"
    and wf': "wf (decorated wa las e st)"
    and P: "\<And>i. i < nextId st \<Longrightarrow> P i \<Longrightarrow> has_class c st i"
  shows "filter P (chain (nextId st) (forest (decorated wa las e st))) =
           filter P [nextId st]"
proof -
  let ?st' = "decorated wa las e st"
  have e: "e \<in> set (ids (forest st))" using pl by (rule placed_in)
  from pl obtain p where p: "parentOf e (forest st) = Some p" by (rule placedD)
  have d: "distinct (ids (forest st))" using wf by (rule wfD)
  have ce: "chain e (forest st) = e # chain p (forest st)" using p d by (rule chain_parent)
  have "distinct (chain e (forest st))" using d by (rule chain_distinct)
  with ce have ne: "e \<notin> set (chain p (forest st))" by simp
  have "p \<in> set (ids (forest st))" using parentOf_in_ids [OF p] by simp
  then have pn: "p < nextId st" using wfD(2) [OF wf] by blast
  have "parentNode (nextId st) ?st' = Some p"
    using parentNode_decorated [OF wf e, of "nextId st" wa las] p wfD(3) [OF wf] e
      layerIds_gt [of "nextId st" "nextId st" las]
    by (auto simp: parentNode_def)
  then have "parentOf (nextId st) (forest ?st') = Some p" by (simp only: parentNode_def)
  then have "chain (nextId st) (forest ?st') = nextId st # chain p (forest ?st')"
    using wfD(1) [OF wf'] by (rule chain_parent)
  also have "chain p (forest ?st') =
      concat (map (\<lambda>i. if i = e then [e, nextId st] else [i]) (chain p (forest st)))"
    using wf e pn by (rule chain_decorated)
  also have "\<dots> = chain p (forest st)" using ne by (rule concat_map_pair_id)
  finally have c: "chain (nextId st) (forest ?st') = nextId st # chain p (forest st)" .
  have "\<forall>i \<in> set (chain p (forest st)). \<not> P i"
  proof
    fix i assume i: "i \<in> set (chain p (forest st))"
    then have "i < nextId st" using wf by (rule chain_old [rotated])
    moreover from i ce ns have "\<not> has_class c st i" by (simp add: closest_None_iff)
    ultimately show "\<not> P i" using P by blast
  qed
  then have "filter P (chain p (forest st)) = []" by (simp only: filter_empty_conv)
  with c show ?thesis by simp
qed

lemma run_single:
  assumes wfd: "well_formed s0" and safe: "safe ps s0"
  shows "\<exists>st'. run g ps s0 = Inr st' \<and> grown ps s0 st' \<and>
           (\<forall>x. length (filter (\<lambda>i. nextId s0 \<le> i \<and> has_class (wrapperClass ps) st' i)
                          (chain x (forest st'))) \<le> 1)"
proof -
  let ?n = "nextId s0" and ?c = "wrapperClass ps"
  let ?els = "querySelectorAll (selectors ps) s0"
  let ?W = "\<lambda>st i. ?n \<le> i \<and> has_class ?c st i"
  let ?A = "\<lambda>st. \<forall>x<?n. filter (\<lambda>i. i < ?n) (chain x (forest st)) = chain x (forest s0)"
  let ?B = "\<lambda>pre st. \<forall>w. ?W st w \<longrightarrow> (\<exists>c \<in> set pre. parentNode c st = Some w)"
  let ?C = "\<lambda>st. \<forall>x. length (filter (?W st) (chain x (forest st))) \<le> 1"
  let ?Q = "\<lambda>pre st. ?A st \<and> ?B pre st \<and> ?C st"
  have wf0: "wf s0" using wfd by (rule well_formed_wf)
  have old0: "\<And>x i. i \<in> set (chain x (forest s0)) \<Longrightarrow> i < ?n"
    using wf0 by (rule chain_old)
  have noW0: "\<And>i. \<not> ?W s0 i"
  proof
    fix i assume "?W s0 i"
    then have "?n \<le> i" "i \<in> set (ids (forest s0))" using has_class_in_ids by blast+
    with wfD(2) [OF wf0] show False by auto
  qed
  have "\<exists>st'. run g ps s0 = Inr st' \<and> grown ps s0 st' \<and> ?Q ?els st'"
  proof (rule run_prefix_invariant [OF wf0 safe])
    have "?A s0" using old0 by (simp add: filter_id_conv)
    moreover have "?B [] s0" using noW0 by blast
    moreover have "?C s0" using noW0 by simp
    ultimately show "?Q [] s0" by blast
  next
    fix pre e post st
    assume els: "?els = pre @ e # post" and g: "grown ps s0 st" and Q: "?Q pre st"
      and g': "grown ps s0 (step g ps e st)"
    from Q have A: "?A st" and B: "?B pre st" and C: "?C st" by blast+
    have wf: "wf st" using g by (rule grownD)
    have ein: "e \<in> set ?els" using els by simp
    then have pl: "placed e s0" using safe by (simp add: safe_def)
    have en: "e < ?n" using pl wf0 by (rule placed_old)
    have pre_old: "\<And>c. c \<in> set pre \<Longrightarrow> c < ?n"
    proof -
      fix c assume "c \<in> set pre"
      with els have "c \<in> set ?els" by simp
      then have "placed c s0" using safe by (simp add: safe_def)
      then show "c < ?n" using wf0 by (rule placed_old)
    qed
    show "?Q (pre @ [e]) (step g ps e st)"
    proof (cases "skips ps e st")
      case True
      then have "step g ps e st = st" by (simp add: step_def)
      moreover from B have "?B (pre @ [e]) st" by auto
      ultimately show ?thesis using A C by simp
    next
      case False
      let ?w = "nextId st"
      let ?wa = "wrapperAttrs g ps st e" and ?las = "layerAttrs ps"
      let ?st' = "decorated ?wa ?las e st"
      let ?f = "\<lambda>i. if i = e then [e, ?w] else [i]"
      from False have st': "step g ps e st = ?st'" by (simp add: step_def)
      from False have cn: "closest e ?c st = None" by (simp add: skips_def)
      have wf': "wf ?st'" using wf by (rule wf_decorated)
      have ple: "placed e st" using g wf0 pl False by (rule grown_unskipped)
      then have tin: "e \<in> set (ids (forest st))" by (rule placed_in)
      have nw: "?n \<le> ?w" using g by (rule grownD)
      have enw: "e < ?w" using en nw by simp
      have hc_old: "\<And>i. i < ?w \<Longrightarrow> has_class ?c ?st' i = has_class ?c st i"
        using wf by (rule has_class_decorated_old)
      have hc_w: "has_class ?c ?st' ?w" using wf tin by (rule has_class_wrapper)
      have hc_layer: "\<And>l. l \<in> set (layerIds ?w ?las) \<Longrightarrow> \<not> has_class ?c ?st' l"
      proof -
        fix l assume "l \<in> set (layerIds ?w ?las)"
        then obtain k where k: "k < length ?las" "l = Suc ?w + k"
          by (auto simp: layerIds_map)
        from attrsOf_decorated_layer [OF wf tin k(1), of ?wa] k(2)
        have "attrsOf l ?st' = Some (?las ! k)" by simp
        moreover have "?c \<notin> set (classList (?las ! k))"
          using k(1) by (intro layer_not_wrapper) simp
        ultimately show "\<not> has_class ?c ?st' l" by (simp add: has_class_def)
      qed
      have ids': "set (ids (forest ?st')) =
          set (ids (forest st)) \<union> {?w} \<union> set (layerIds ?w ?las)"
        using wf tin by (rule ids_decorated)
      have chain_old': "\<And>x. x < ?w \<Longrightarrow>
          chain x (forest ?st') = concat (map ?f (chain x (forest st)))"
        using wf tin by (rule chain_decorated)
      have below: "\<And>x i. i \<in> set (chain x (forest st)) \<Longrightarrow> i < ?w"
        using wf by (rule chain_old)
      have A': "?A ?st'"
      proof (intro allI impI)
        fix x assume x: "x < ?n"
        then have "x < ?w" using nw by simp
        then have "filter (\<lambda>i. i < ?n) (chain x (forest ?st')) =
            filter (\<lambda>i. i < ?n) (concat (map ?f (chain x (forest st))))"
          by (simp only: chain_old')
        also have "\<dots> = filter (\<lambda>i. i < ?n) (chain x (forest st))"
          using nw by (intro filter_concat_pair) simp
        also have "\<dots> = chain x (forest s0)" using A x by blast
        finally show "filter (\<lambda>i. i < ?n) (chain x (forest ?st')) = chain x (forest s0)" .
      qed
      have B': "?B (pre @ [e]) ?st'"
      proof (intro allI impI)
        fix w assume W: "?W ?st' w"
        then have "w \<in> set (ids (forest ?st'))" using has_class_in_ids by blast
        with ids' hc_layer W have "w \<in> set (ids (forest st)) \<or> w = ?w" by blast
        then show "\<exists>c \<in> set (pre @ [e]). parentNode c ?st' = Some w"
        proof
          assume "w \<in> set (ids (forest st))"
          then have "w < ?w" using wfD(2) [OF wf] by blast
          with W hc_old have "?W st w" by simp
          with B obtain c where c: "c \<in> set pre" "parentNode c st = Some w" by blast
          have "c \<noteq> e" using wfd els c(1) by (rule query_preorder)
          moreover have "c < ?w" using pre_old [OF c(1)] nw by simp
          then have "c \<noteq> ?w" "c \<notin> set (layerIds ?w ?las)"
            using layerIds_gt [of c ?w ?las] by auto
          ultimately have "parentNode c ?st' = Some w"
            using c(2) by (simp add: parentNode_decorated [OF wf tin])
          with c(1) show ?thesis by auto
        next
          assume "w = ?w"
          moreover have "parentNode e ?st' = Some ?w"
            by (simp add: parentNode_decorated [OF wf tin])
          ultimately show ?thesis by auto
        qed
      qed
      have fw: "filter (?W ?st') (chain ?w (forest ?st')) = [?w]"
      proof -
        have "filter (?W ?st') (chain ?w (forest ?st')) = filter (?W ?st') [?w]"
          using wf ple cn wf'
        proof (rule new_wrapper_chain)
          fix i assume "i < ?w" and "?W ?st' i"
          then show "has_class ?c st i" using hc_old by simp
        qed
        with hc_w nw show ?thesis by simp
      qed
      have C': "?C ?st'"
      proof
        fix x
        consider (old) "x < ?w" | (wrapper) "x = ?w" | (layer) "x \<in> set (layerIds ?w ?las)"
          | (none) "x \<notin> set (ids (forest ?st'))"
          using ids' wfD(2) [OF wf] by (cases "x < ?w") auto
        then show "length (filter (?W ?st') (chain x (forest ?st'))) \<le> 1"
        proof cases
          case old
          let ?l = "chain x (forest st)"
          have same: "\<forall>i \<in> set ?l. ?W ?st' i = ?W st i" using below hc_old by simp
          have "\<not> ?W ?st' e" using en by simp
          with hc_w nw same
          have len: "length (filter (?W ?st') (concat (map ?f ?l))) =
              length (filter (?W st) ?l) + length (filter (\<lambda>i. i = e) ?l)"
            by (intro length_filter_concat_pair) simp_all
          have dl: "distinct ?l" using wfD(1) [OF wf] by (rule chain_distinct)
          show ?thesis
          proof (cases "e \<in> set ?l")
            case False
            then have "length (filter (\<lambda>i. i = e) ?l) = 0"
              using length_filter_eq [OF dl, of e] by simp
            with len C show ?thesis by (simp only: chain_old' [OF old]) simp
          next
            case True
            have "\<forall>i \<in> set ?l. \<not> ?W st i"
            proof
              fix w assume w: "w \<in> set ?l"
              show "\<not> ?W st w"
              proof
                assume W: "?W st w"
                with B obtain c where c: "c \<in> set pre" "parentNode c st = Some w" by blast
                have cn0: "c < ?n" using c(1) by (rule pre_old)
                have "parentOf c (forest st) = Some w" using c(2) by (simp only: parentNode_def)
                then have cc: "chain c (forest st) = c # chain w (forest st)"
                  using wfD(1) [OF wf] by (rule chain_parent)
                from chain_linear [OF wfD(1) [OF wf] w True]
                have "w \<in> set (chain e (forest st)) \<or> e \<in> set (chain w (forest st))" .
                moreover have "w \<notin> set (chain e (forest st))"
                  using cn W by (auto simp: closest_None_iff)
                ultimately have "e \<in> set (chain c (forest st))" using cc by simp
                with en have "e \<in> set (filter (\<lambda>i. i < ?n) (chain c (forest st)))" by simp
                with A cn0 have "e \<in> set (chain c (forest s0))" by simp
                with query_preorder(1) [OF wfd els c(1)] show False by simp
              qed
            qed
            then have "filter (?W st) ?l = []" by (simp only: filter_empty_conv)
            moreover have "length (filter (\<lambda>i. i = e) ?l) = 1"
              using True length_filter_eq [OF dl, of e] by simp
            ultimately show ?thesis using len by (simp only: chain_old' [OF old]) simp
          qed
        next
          case wrapper
          with fw show ?thesis by simp
        next
          case layer
          have "parentNode x ?st' = Some ?w"
            using layer by (simp add: parentNode_decorated [OF wf tin])
          then have "parentOf x (forest ?st') = Some ?w" by (simp only: parentNode_def)
          then have "chain x (forest ?st') = x # chain ?w (forest ?st')"
            using wfD(1) [OF wf'] by (rule chain_parent)
          with fw hc_layer [OF layer] show ?thesis by simp
        next
          case none
          then have "chain x (forest ?st') = []" by (rule chain_notin)
          then show ?thesis by simp
        qed
      qed
      from A' B' C' show ?thesis by (simp only: st') blast
    qed
  qed
  then show ?thesis by blast
qed

section \<open>The two passes of a script\<close>

lemma listener_runs:
  "listener g k st = andThen (run g (inputPass k) st) (run g (buttonPass k))"
  by (cases k) (simp_all add: listener1_def listener2_def)

lemma created_unmatched_any:
  "is_wrapper ps a \<or> is_layer ps a \<Longrightarrow> \<not> matches_any (selectors ps') a"
proof -
  assume "is_wrapper ps a \<or> is_layer ps a"
  then have "localName a = ''div'' \<and> typeAttr a = None \<and>
     (\<exists>c \<in> set (wrapperClass ps # layerClasses ps). classList a = [c])"
  proof
    assume w: "is_wrapper ps a"
    then have "localName (a\<lparr>styleWidth := []\<rparr>) = ''div''" "typeAttr (a\<lparr>styleWidth := []\<rparr>) = None"
      "classList (a\<lparr>styleWidth := []\<rparr>) = [wrapperClass ps]"
      unfolding is_wrapper_def by (simp_all add: div_with_def)
    then show ?thesis by simp
  next
    assume "is_layer ps a"
    then show ?thesis by (auto simp: is_layer_def layerAttrs_def div_with_def)
  qed
  then show ?thesis
    by (cases ps; cases ps')
       (auto simp: matches_any_def inputs1_def buttons1_def inputs2_def buttons2_def)
qed

lemma grown_matched_old:
  assumes "grown ps s0 st" and "x < nextId s0"
  shows "matched ps' x st = matched ps' x s0"
  using grownD(3) [OF assms] by (simp add: matched_def)

lemma grown_matched_any:
  assumes g: "grown ps s0 st" and m: "matched ps' x st"
  shows "matched ps' x s0" and "x < nextId s0"
proof -
  have x: "x < nextId s0"
  proof (rule ccontr)
    assume "\<not> x < nextId s0"
    then have n: "nextId s0 \<le> x" by simp
    from m obtain a where a: "attrsOf x st = Some a" "matches_any (selectors ps') a"
      by (auto simp: matched_def split: option.splits)
    from grownD(5) [OF g n a(1)] have "is_wrapper ps a \<or> is_layer ps a" .
    with a(2) created_unmatched_any show False by blast
  qed
  then show "x < nextId s0" .
  from g x m show "matched ps' x s0" by (simp add: grown_matched_old)
qed

lemma is_element_old:
  assumes "grown ps s0 st" and "x < nextId s0"
  shows "is_element x st = is_element x s0"
  using grownD(3) [OF assms] by (simp add: is_element_def)

lemma has_class_element: "has_class c st p \<Longrightarrow> is_element p st"
  by (auto simp: has_class_def is_element_def split: option.splits)

lemma grown_placed:
  assumes g: "grown ps s0 st" and wf0: "wf s0" and pl: "placed e s0"
  shows "placed e st"
proof -
  have en: "e < nextId s0" using pl wf0 by (rule placed_old)
  from pl obtain p where p: "parentNode e s0 = Some p" and ie: "is_element e s0"
    and ip: "is_element p s0"
    by (auto simp: placed_def split: option.splits)
  have "p \<in> set (ids (forest s0))" using p parentOf_in_ids [of e "forest s0" p]
    by (simp add: parentNode_def)
  then have pn: "p < nextId s0" using wfD(2) [OF wf0] by blast
  have e': "is_element e st" using ie is_element_old [OF g en] by simp
  from grownD(4) [OF g en]
  show ?thesis
  proof
    assume "parentNode e st = parentNode e s0"
    with p ip is_element_old [OF g pn] e' show ?thesis by (simp add: placed_def)
  next
    assume "\<exists>q\<ge>nextId s0. parentNode e st = Some q \<and> has_class (wrapperClass ps) st q"
    then obtain q where "parentNode e st = Some q" "has_class (wrapperClass ps) st q" by blast
    with e' has_class_element show ?thesis by (simp add: placed_def)
  qed
qed

lemma placed_not_document:
  assumes "placed e st" and "forest st = [Node document a ks]" and "nodeKind a = Document"
  shows "e \<noteq> document"
proof
  assume "e = document"
  with assms(1) have "is_element document st" by (simp add: placed_def)
  with assms(2,3) show False by (simp add: is_element_def attrsOf_def)
qed

lemma run_well_formed:
  assumes wfd: "well_formed s0" and safe: "safe ps s0"
  shows "\<exists>st'. run g ps s0 = Inr st' \<and> grown ps s0 st' \<and> well_formed st'"
proof -
  let ?Q = "\<lambda>pre st. \<exists>a ks. forest st = [Node document a ks] \<and> nodeKind a = Document"
  have wf0: "wf s0" using wfd by (rule well_formed_wf)
  have "\<exists>st'. run g ps s0 = Inr st' \<and> grown ps s0 st' \<and>
          ?Q (querySelectorAll (selectors ps) s0) st'"
  proof (rule run_invariant [OF wf0 safe])
    from wfd obtain a ks where "forest s0 = [Node document a ks]" "nodeKind a = Document"
      by (rule well_formedD)
    then show "?Q [] s0" by blast
  next
    fix pre :: "nat list" and e st
    assume pl: "placed e s0" and g: "grown ps s0 st" and Q: "?Q pre st"
    from Q obtain a ks where F: "forest st = [Node document a ks]" and k: "nodeKind a = Document"
      by blast
    show "?Q (pre @ [e]) (step g ps e st)"
    proof (cases "skips ps e st")
      case True
      with Q show ?thesis by (simp add: step_def)
    next
      case False
      from g wf0 pl False have "placed e st" by (rule grown_unskipped)
      then have "e \<noteq> document" using F k by (rule placed_not_document)
      with False F k show ?thesis by (simp add: step_def wrapF_Cons)
    qed
  qed
  then obtain st' where r: "run g ps s0 = Inr st'" and g: "grown ps s0 st'"
    and F: "\<exists>a ks. forest st' = [Node document a ks] \<and> nodeKind a = Document" by blast
  from F grownD(1) [OF g] have "well_formed st'" by (auto simp: well_formed_def)
  with r g show ?thesis by blast
qed

lemma safe_after:
  assumes wfd: "well_formed s0" and g: "grown ps s0 st" and wfd': "well_formed st"
    and safe: "safe ps' s0"
  shows "safe ps' st"
  unfolding safe_def
proof
  fix x assume x: "x \<in> set (querySelectorAll (selectors ps') st)"
  have wf0: "wf s0" using wfd by (rule well_formed_wf)
  from query_matched [OF grownD(1) [OF g] x] have m: "matched ps' x st" and d: "x \<noteq> document"
    by auto
  from grown_matched_any(1) [OF g m] have "matched ps' x s0" .
  with wfd have "x \<in> set (querySelectorAll (selectors ps') s0)" using d by (rule matched_query)
  with safe have "placed x s0" by (simp add: safe_def)
  with g wf0 show "placed x st" by (rule grown_placed)
qed

lemma run_untouched:
  assumes wf0: "wf s0" and safe: "safe ps s0"
    and e: "e \<in> set (ids (forest s0))" and u: "untouched ps e s0"
  shows "\<exists>st'. run g ps s0 = Inr st' \<and> grown ps s0 st' \<and>
           chain e (forest st') = chain e (forest s0)"
proof -
  let ?Q = "\<lambda>pre st. chain e (forest st) = chain e (forest s0)"
  have en: "e < nextId s0" using wfD(2) [OF wf0] e by blast
  have "\<exists>st'. run g ps s0 = Inr st' \<and> grown ps s0 st' \<and>
          ?Q (querySelectorAll (selectors ps) s0) st'"
  proof (rule run_invariant [OF wf0 safe])
    show "?Q [] s0" by simp
  next
    fix pre :: "nat list" and t st
    assume t: "t \<in> set (querySelectorAll (selectors ps) s0)"
      and pl: "placed t s0" and g: "grown ps s0 st" and Q: "?Q pre st"
    have wf: "wf st" using g by (rule grownD)
    have tn: "t < nextId s0" using pl wf0 by (rule placed_old)
    show "?Q (pre @ [t]) (step g ps t st)"
    proof (cases "skips ps t st")
      case True
      with Q show ?thesis by (simp add: step_def)
    next
      case False
      from g wf0 pl False have "placed t st" by (rule grown_unskipped)
      then have tin: "t \<in> set (ids (forest st))" by (rule placed_in)
      from False have "\<not> excluded ps t st" by (simp add: skips_def)
      then have nx: "\<not> excluded ps t s0" using grown_excluded [OF g tn] by simp
      have "matched ps t s0" using query_matched(1) [OF wf0 t] .
      with nx u have tc: "t \<notin> set (chain e (forest s0))" by (auto simp: untouched_def)
      have "e < nextId st" using en grownD(2) [OF g] by simp
      then have "chain e (forest (step g ps t st)) =
          concat (map (\<lambda>i. if i = t then [t, nextId st] else [i]) (chain e (forest s0)))"
        using False chain_decorated [OF wf tin] Q by (simp add: step_def)
      also have "\<dots> = chain e (forest s0)" using tc by (rule concat_map_pair_id)
      finally show ?thesis .
    qed
  qed
  then show ?thesis by blast
qed

lemma run_keeps_skips:
  assumes wf0: "wf s0" and safe: "safe ps s0"
  shows "\<exists>st'. run g ps s0 = Inr st' \<and> grown ps s0 st' \<and>
           (\<forall>x<nextId s0. skips ps' x s0 \<longrightarrow> skips ps' x st')"
proof -
  let ?Q = "\<lambda>pre st. \<forall>x<nextId s0. skips ps' x s0 \<longrightarrow> skips ps' x st"
  have "\<exists>st'. run g ps s0 = Inr st' \<and> grown ps s0 st' \<and>
          ?Q (querySelectorAll (selectors ps) s0) st'"
  proof (rule run_invariant [OF wf0 safe])
    show "?Q [] s0" by simp
  next
    fix pre :: "nat list" and t st
    assume pl: "placed t s0" and g: "grown ps s0 st" and Q: "?Q pre st"
    have wf: "wf st" using g by (rule grownD)
    show "?Q (pre @ [t]) (step g ps t st)"
    proof (cases "skips ps t st")
      case True
      with Q show ?thesis by (simp add: step_def)
    next
      case False
      from g wf0 pl False have "placed t st" by (rule grown_unskipped)
      then have tin: "t \<in> set (ids (forest st))" by (rule placed_in)
      have "\<And>x. x < nextId s0 \<Longrightarrow> skips ps' x s0 \<Longrightarrow>
          skips ps' x (decorated (wrapperAttrs g ps st t) (layerAttrs ps) t st)"
      proof -
        fix x assume x: "x < nextId s0" and s: "skips ps' x s0"
        with Q have s': "skips ps' x st" by blast
        have "x < nextId st" using x grownD(2) [OF g] by simp
        with wf tin show "skips ps' x (decorated (wrapperAttrs g ps st t) (layerAttrs ps) t st)"
          using s' by (rule skips_decorated_mono)
      qed
      with False show ?thesis by (simp add: step_def)
    qed
  qed
  then show ?thesis by blast
qed

lemma listener_stages:
  assumes wfd: "well_formed st" and si: "safe (inputPass k) st" and sb: "safe (buttonPass k) st"
  shows "\<exists>s1 s2. run g (inputPass k) st = Inr s1 \<and> grown (inputPass k) st s1 \<and>
           well_formed s1 \<and> safe (buttonPass k) s1 \<and>
           run g (buttonPass k) s1 = Inr s2 \<and> grown (buttonPass k) s1 s2 \<and>
           listener g k st = Inr s2 \<and> listener g k s2 = Inr s2"
proof -
  let ?I = "inputPass k" and ?B = "buttonPass k"
  have wf0: "wf st" using wfd by (rule well_formed_wf)
  from run_well_formed [OF wfd si, of g] obtain s1 where
    r1: "run g ?I st = Inr s1" and g1: "grown ?I st s1" and wfd1: "well_formed s1" by blast
  from run_all_skip [OF wf0 si, of g] r1
  have sk1: "\<forall>x \<in> set (querySelectorAll (selectors ?I) st). skips ?I x s1" by auto
  have sb1: "safe ?B s1" using wfd g1 wfd1 sb by (rule safe_after)
  have wf1: "wf s1" using wfd1 by (rule well_formed_wf)
  from run_idempotent [OF wfd1 sb1, of g] obtain s2 where
    r2: "run g ?B s1 = Inr s2" and i2: "run g ?B s2 = Inr s2" and g2: "grown ?B s1 s2" by blast
  from run_keeps_skips [OF wf1 sb1, of g ?I] r2
  have keep: "\<forall>x<nextId s1. skips ?I x s1 \<longrightarrow> skips ?I x s2" by auto
  have "\<forall>x \<in> set (querySelectorAll (selectors ?I) s2). skips ?I x s2"
  proof
    fix x assume x: "x \<in> set (querySelectorAll (selectors ?I) s2)"
    from query_matched [OF grownD(1) [OF g2] x] have m2: "matched ?I x s2" and d: "x \<noteq> document"
      by auto
    from grown_matched_any [OF g2 m2] have m1: "matched ?I x s1" and x1: "x < nextId s1" .
    from g1 m1 have "matched ?I x st" by (rule grown_matched)
    with wfd have "x \<in> set (querySelectorAll (selectors ?I) st)" using d by (rule matched_query)
    with sk1 have "skips ?I x s1" by blast
    with keep x1 show "skips ?I x s2" by blast
  qed
  then have i1: "run g ?I s2 = Inr s2" by (simp add: run_forEach forEach_all_skip)
  have l1: "listener g k st = Inr s2" using r1 r2 by (simp add: listener_runs andThen_Inr)
  have l2: "listener g k s2 = Inr s2" using i1 i2 by (simp add: listener_runs andThen_Inr)
  from r1 g1 wfd1 sb1 r2 g2 l1 l2 show ?thesis by blast
qed

lemma filter_new_chain:
  assumes wf: "wf st" and e: "e < nextId st" and w: "nextId st \<le> w"
  shows "filter (\<lambda>i. nextId st \<le> i) (e # w # tl (chain e (forest st))) = [w]"
proof -
  have "\<forall>i \<in> set (tl (chain e (forest st))). \<not> nextId st \<le> i"
  proof
    fix i assume "i \<in> set (tl (chain e (forest st)))"
    then have "i \<in> set (chain e (forest st))" by (cases "chain e (forest st)") auto
    with wf have "i < nextId st" by (rule chain_old)
    then show "\<not> nextId st \<le> i" by simp
  qed
  then have "filter (\<lambda>i. nextId st \<le> i) (tl (chain e (forest st))) = []"
    by (simp only: filter_empty_conv)
  with e w show ?thesis by simp
qed

lemma listener_owns_input:
  assumes wfd: "well_formed st" and si: "safe (inputPass k) st" and sb: "safe (buttonPass k) st"
    and e: "e \<in> set (querySelectorAll (selectors (inputPass k)) st)"
    and cl: "clear (inputPass k) e st" and u: "untouched (buttonPass k) e st"
  shows "\<exists>st' w. listener g k st = Inr st' \<and> listener g k st' = Inr st' \<and>
           chain e (forest st') = e # w # tl (chain e (forest st)) \<and> nextId st \<le> w \<and>
           has_class (wrapperClass (inputPass k)) st' w"
proof -
  let ?I = "inputPass k" and ?B = "buttonPass k"
  have wf0: "wf st" using wfd by (rule well_formed_wf)
  from listener_stages [OF wfd si sb, of g] obtain s1 s2 where
    r1: "run g ?I st = Inr s1" and g1: "grown ?I st s1" and wfd1: "well_formed s1"
    and sb1: "safe ?B s1" and r2: "run g ?B s1 = Inr s2" and g2: "grown ?B s1 s2"
    and l1: "listener g k st = Inr s2" and l2: "listener g k s2 = Inr s2" by blast
  have wf1: "wf s1" using wfd1 by (rule well_formed_wf)
  from run_owns [OF wf0 si e cl, of g] r1 obtain w where o: "owns ?I st e s1 w" by auto
  from o have c1: "chain e (forest s1) = e # w # tl (chain e (forest st))"
    and wn: "nextId st \<le> w" by (simp_all add: owns_def)
  have hw: "has_class (wrapperClass ?I) s1 w" using o by (rule owns_has_class)
  then have win: "w \<in> set (ids (forest s1))" by (rule has_class_in_ids)
  then have w1: "w < nextId s1" using wfD(2) [OF wf1] by blast
  have ein: "e \<in> set (ids (forest s1))" using c1 chain_Cons_in by blast
  have u1: "untouched ?B e s1"
    unfolding untouched_def
  proof
    fix i assume i: "i \<in> set (chain e (forest s1))"
    show "\<not> (matched ?B i s1 \<and> \<not> excluded ?B i s1)"
    proof (cases "i = w")
      case True
      show ?thesis
      proof
        assume "matched ?B i s1 \<and> \<not> excluded ?B i s1"
        then have "matched ?B w s1" using True by simp
        from grown_matched_any(2) [OF g1 this] wn show False by simp
      qed
    next
      case False
      from e si have "placed e st" by (simp add: safe_def)
      then have "e \<in> set (ids (forest st))" by (rule placed_in)
      then obtain cs where "chain e (forest st) = e # cs" using chain_hd by blast
      with i c1 False have "i \<in> set (chain e (forest st))" by auto
      then have m: "\<not> (matched ?B i st \<and> \<not> excluded ?B i st)" and io: "i < nextId st"
        using u chain_old [OF wf0] by (auto simp: untouched_def)
      from g1 io have "matched ?B i s1 = matched ?B i st" by (rule grown_matched_old)
      moreover from g1 io have "excluded ?B i s1 = excluded ?B i st" by (rule grown_excluded)
      ultimately show ?thesis using m by simp
    qed
  qed
  from run_untouched [OF wf1 sb1 ein u1, of g] r2
  have c2: "chain e (forest s2) = chain e (forest s1)" by auto
  have "has_class (wrapperClass ?I) s2 w" using hw grown_has_class [OF g2 w1] by simp
  with l1 l2 c1 c2 wn show ?thesis by auto
qed

lemma listener_owns_button:
  assumes wfd: "well_formed st" and si: "safe (inputPass k) st" and sb: "safe (buttonPass k) st"
    and e: "e \<in> set (querySelectorAll (selectors (buttonPass k)) st)"
    and cl: "clear (buttonPass k) e st" and u: "untouched (inputPass k) e st"
  shows "\<exists>st' w. listener g k st = Inr st' \<and> listener g k st' = Inr st' \<and>
           chain e (forest st') = e # w # tl (chain e (forest st)) \<and> nextId st \<le> w \<and>
           has_class (wrapperClass (buttonPass k)) st' w"
proof -
  let ?I = "inputPass k" and ?B = "buttonPass k"
  have wf0: "wf st" using wfd by (rule well_formed_wf)
  from listener_stages [OF wfd si sb, of g] obtain s1 s2 where
    r1: "run g ?I st = Inr s1" and g1: "grown ?I st s1" and wfd1: "well_formed s1"
    and sb1: "safe ?B s1" and r2: "run g ?B s1 = Inr s2" and g2: "grown ?B s1 s2"
    and l1: "listener g k st = Inr s2" and l2: "listener g k s2 = Inr s2" by blast
  have wf1: "wf s1" using wfd1 by (rule well_formed_wf)
  from e sb have pl: "placed e st" by (simp add: safe_def)
  then have ein: "e \<in> set (ids (forest st))" by (rule placed_in)
  have en: "e < nextId st" using pl wf0 by (rule placed_old)
  from run_untouched [OF wf0 si ein u, of g] r1
  have c1: "chain e (forest s1) = chain e (forest st)" by auto
  have old: "\<And>i. i \<in> set (chain e (forest st)) \<Longrightarrow> i < nextId st"
    using wf0 by (rule chain_old)
  from query_matched [OF wf0 e] have m: "matched ?B e st" and d: "e \<noteq> document" by auto
  have "matched ?B e s1" using m grown_matched_old [OF g1 en] by simp
  with wfd1 have e1: "e \<in> set (querySelectorAll (selectors ?B) s1)" using d
    by (rule matched_query)
  from cl have nx: "\<not> excluded ?B e st" and cn: "closest e (wrapperClass ?B) st = None"
    and top: "topmost ?B e st" by (simp_all add: clear_def)
  have nx1: "\<not> excluded ?B e s1" using nx grown_excluded [OF g1 en] by simp
  have cn1: "closest e (wrapperClass ?B) s1 = None"
    using wf0 g1 c1 cn by (rule grown_closest_None)
  have top1: "topmost ?B e s1"
    unfolding topmost_def
  proof
    fix i assume "i \<in> set (tl (chain e (forest s1)))"
    then have i: "i \<in> set (tl (chain e (forest st)))" by (simp only: c1)
    then have "i \<in> set (chain e (forest st))" by (cases "chain e (forest st)") auto
    then have io: "i < nextId st" by (rule old)
    from top i have "\<not> (matched ?B i st \<and> \<not> excluded ?B i st)" by (simp add: topmost_def)
    moreover from g1 io have "matched ?B i s1 = matched ?B i st" by (rule grown_matched_old)
    moreover from g1 io have "excluded ?B i s1 = excluded ?B i st" by (rule grown_excluded)
    ultimately show "\<not> (matched ?B i s1 \<and> \<not> excluded ?B i s1)" by simp
  qed
  have cl1: "clear ?B e s1" using nx1 cn1 top1 by (simp add: clear_def)
  from run_owns [OF wf1 sb1 e1 cl1, of g] r2 obtain w where o: "owns ?B s1 e s2 w" by auto
  from o have c2: "chain e (forest s2) = e # w # tl (chain e (forest s1))"
    and wn: "nextId s1 \<le> w" by (simp_all add: owns_def)
  have hw: "has_class (wrapperClass ?B) s2 w" using o by (rule owns_has_class)
  have "nextId st \<le> w" using wn grownD(2) [OF g1] by simp
  with l1 l2 c1 c2 hw show ?thesis by auto
qed

section \<open>Nodes outside the document tree\<close>















lemma final_Inr [simp]: "final (Inr st) = st"
  by (simp add: final_def)

lemma final_Inl [simp]: "final (Inl (e, st)) = st"
  by (simp add: final_def)

lemma raised_Inr [simp]: "raised (Inr st) = None"
  by (simp add: raised_def)

lemma raised_Inl [simp]: "raised (Inl (e, st)) = Some e"
  by (simp add: raised_def)



section \<open>The claims\<close>

text \<open>
  C1. Running a decoration pass a second time changes nothing: on a well-formed document
  in which every matched element has an element as its parent (so that no wrapper has to
  be placed directly under the document node), the pass completes, and a second
  invocation on the resulting document completes with exactly the same document, that
  is, it performs no mutation at all. In that document no node has acquired two
  wrapper ancestors: among the ancestors of any node (the node itself included) at most
  one carries the wrapper class without having carried it before the first invocation.
  In particular, when no node carried the wrapper class at the start, no node has two
  ancestors carrying it after the first or the second invocation. The same idempotence
  holds for each script as a whole (its input pass followed by its button pass).
\<close>

theorem decoration_pass_idempotent:
  assumes "well_formed st" and "safe ps st"
  shows "(\<exists>st'. run g ps st = Inr st' \<and> run g ps st' = Inr st' \<and>
           (\<forall>x. length (filter (\<lambda>i. has_class (wrapperClass ps) st' i \<and>
                                      \<not> has_class (wrapperClass ps) st i)
                            (chain x (forest st'))) \<le> 1) \<and>
           ((\<forall>i \<in> set (ids (forest st)). \<not> has_class (wrapperClass ps) st i) \<longrightarrow>
            (\<forall>x. length (filter (has_class (wrapperClass ps) st') (chain x (forest st'))) \<le> 1))) \<and>
         (safe (inputPass k) st \<and> safe (buttonPass k) st \<longrightarrow>
           (\<exists>st'. listener g k st = Inr st' \<and> listener g k st' = Inr st'))"
proof -
  let ?c = "wrapperClass ps"
  have wf: "wf st" using assms(1) by (rule well_formed_wf)
  from run_single [OF assms, of g] obtain st' where r: "run g ps st = Inr st'"
    and g: "grown ps st st'"
    and one: "\<forall>x. length (filter (\<lambda>i. nextId st \<le> i \<and> has_class ?c st' i)
                          (chain x (forest st'))) \<le> 1" by blast
  from run_idempotent [OF assms, of g] r have i: "run g ps st' = Inr st'" by auto
  have new: "\<And>i. nextId st \<le> i \<Longrightarrow> \<not> has_class ?c st i"
  proof
    fix i assume "nextId st \<le> i" and "has_class ?c st i"
    then have "nextId st \<le> i" "i \<in> set (ids (forest st))" using has_class_in_ids by blast+
    with wfD(2) [OF wf] show False by auto
  qed
  have old: "\<And>i. i < nextId st \<Longrightarrow> has_class ?c st' i = has_class ?c st i"
    using g by (rule grown_has_class)
  have "(\<lambda>i. has_class ?c st' i \<and> \<not> has_class ?c st i) =
      (\<lambda>i. nextId st \<le> i \<and> has_class ?c st' i)"
  proof
    fix i
    show "(has_class ?c st' i \<and> \<not> has_class ?c st i) = (nextId st \<le> i \<and> has_class ?c st' i)"
      using new [of i] old [of i] by (cases "i < nextId st") auto
  qed
  with one have 1: "\<forall>x. length (filter (\<lambda>i. has_class ?c st' i \<and> \<not> has_class ?c st i)
      (chain x (forest st'))) \<le> 1" by simp
  have 2: "\<forall>x. length (filter (has_class ?c st') (chain x (forest st'))) \<le> 1"
    if fresh: "\<forall>i \<in> set (ids (forest st)). \<not> has_class ?c st i"
  proof -
    have "\<And>i. \<not> has_class ?c st i" using fresh has_class_in_ids by blast
    with 1 show ?thesis by simp
  qed
  from r i 1 2 have pass: "\<exists>st'. run g ps st = Inr st' \<and> run g ps st' = Inr st' \<and>
           (\<forall>x. length (filter (\<lambda>i. has_class (wrapperClass ps) st' i \<and>
                                      \<not> has_class (wrapperClass ps) st i)
                            (chain x (forest st'))) \<le> 1) \<and>
           ((\<forall>i \<in> set (ids (forest st)). \<not> has_class (wrapperClass ps) st i) \<longrightarrow>
            (\<forall>x. length (filter (has_class (wrapperClass ps) st') (chain x (forest st'))) \<le> 1))"
    by blast
  have "safe (inputPass k) st \<and> safe (buttonPass k) st \<longrightarrow>
           (\<exists>st'. listener g k st = Inr st' \<and> listener g k st' = Inr st')"
    using listener_stages [OF assms(1), of k g] by blast
  with pass show ?thesis ..
qed

theorem decoration_pass_idempotent_witness:
  "well_formed nested_page \<and> safe Buttons1 nested_page \<and>
   (\<exists>st'. run no_style Buttons1 nested_page = Inr st' \<and> run no_style Buttons1 st' = Inr st' \<and>
      (\<forall>x. length (filter (has_class (wrapperClass Buttons1) st') (chain x (forest st'))) \<le> 1)) \<and>
   safe (inputPass First) nested_page \<and> safe (buttonPass First) nested_page \<and>
   (\<exists>st'. listener no_style First nested_page = Inr st' \<and> listener no_style First st' = Inr st')"
proof -
  have h: "well_formed nested_page" "safe Buttons1 nested_page" by code_simp+
  have f: "\<forall>i \<in> set (ids (forest nested_page)).
      \<not> has_class (wrapperClass Buttons1) nested_page i" by code_simp
  have s: "safe (inputPass First) nested_page" "safe (buttonPass First) nested_page"
    by code_simp+
  note t = decoration_pass_idempotent [OF h, of no_style First]
  from t f
  have 1: "\<exists>st'. run no_style Buttons1 nested_page = Inr st' \<and>
      run no_style Buttons1 st' = Inr st' \<and>
      (\<forall>x. length (filter (has_class (wrapperClass Buttons1) st') (chain x (forest st'))) \<le> 1)"
    by blast
  from t s
  have 2: "\<exists>st'. listener no_style First nested_page = Inr st' \<and>
      listener no_style First st' = Inr st'" by blast
  from h s 1 2 show ?thesis by blast
qed

text \<open>
  C2. As stated the claim fails: an element carrying an excluded class that sits inside
  an eligible element ends up below that element's wrapper; and the second script
  excludes neither \<open>search-input\<close> (which it selects) nor \<open>card-btn\<close>, so there such
  elements get wrappers of their own. What holds, with the classes each pass really
  excludes (first script: \<open>search-input\<close> for inputs, \<open>nav-btn\<close>, \<open>tab-btn\<close>, \<open>card-btn\<close>
  for buttons; second script: none for inputs, \<open>nav-btn\<close>, \<open>tab-btn\<close> for buttons), is
  that an excluded element is never given a wrapper of its own: its parent node after
  the pass is the parent it had before; and when, in addition, it had no ancestor
  carrying the wrapper class and none of its proper ancestors is an eligible,
  non-excluded element, it has no wrapper ancestor after the pass either.
\<close>

theorem excluded_nested_counterexample:
  "excluded Buttons1 4 nested_page \<and>
   closest 4 ''btn-animated-wrapper'' nested_page = None \<and>
   closest 4 ''btn-animated-wrapper'' (final (run no_style Buttons1 nested_page)) = Some 8 \<and>
   classList_contains 3 ''search-input'' search_page \<and>
   closest 3 ''input-animated-wrapper'' search_page = None \<and>
   closest 3 ''input-animated-wrapper'' (final (decorate_inputs2 search_page)) = Some 5 \<and>
   classList_contains 4 ''card-btn'' search_page \<and>
   closest 4 ''btn-animated-wrapper'' search_page = None \<and>
   closest 4 ''btn-animated-wrapper'' (final (decorate_buttons2 search_page)) = Some 5"
  by code_simp

theorem excluded_element_keeps_parent:
  assumes "wf st" and "safe ps st" and "e \<in> set (ids (forest st))" and "excluded ps e st"
  shows "\<exists>st'. run g ps st = Inr st' \<and> parentNode e st' = parentNode e st \<and>
           (topmost ps e st \<and> closest e (wrapperClass ps) st = None \<longrightarrow>
              closest e (wrapperClass ps) st' = None)"
proof -
  from run_parent_kept [OF assms, of g] obtain st' where
    r: "run g ps st = Inr st'" "grown ps st st'" "parentNode e st' = parentNode e st" by blast
  have "closest e (wrapperClass ps) st' = None"
    if t: "topmost ps e st" and c: "closest e (wrapperClass ps) st = None"
  proof -
    from run_chain_kept [OF assms t, of g] r(1) have "chain e (forest st') = chain e (forest st)"
      by auto
    with assms(1) r(2) show ?thesis using c by (rule grown_closest_None)
  qed
  then have "topmost ps e st \<and> closest e (wrapperClass ps) st = None \<longrightarrow>
      closest e (wrapperClass ps) st' = None" by simp
  with r(1,3) show ?thesis by (intro exI [of _ st']) simp
qed

theorem excluded_element_keeps_parent_witness:
  "wf nested_page \<and> safe Buttons1 nested_page \<and> 7 \<in> set (ids (forest nested_page)) \<and>
   excluded Buttons1 7 nested_page \<and> topmost Buttons1 7 nested_page \<and>
   closest 7 (wrapperClass Buttons1) nested_page = None \<and>
   (\<exists>st'. run no_style Buttons1 nested_page = Inr st' \<and>
      parentNode 7 st' = parentNode 7 nested_page \<and>
      closest 7 (wrapperClass Buttons1) st' = None)"
proof -
  have h: "wf nested_page" "safe Buttons1 nested_page" "7 \<in> set (ids (forest nested_page))"
    "excluded Buttons1 7 nested_page" by code_simp+
  have t: "topmost Buttons1 7 nested_page" "closest 7 (wrapperClass Buttons1) nested_page = None"
    by code_simp+
  from excluded_element_keeps_parent [OF h, of no_style] h t show ?thesis by blast
qed

text \<open>
  C3. As stated the claim fails in three ways. An eligible, non-excluded element nested
  inside another eligible element is skipped by the guard, because its ancestor has been
  wrapped before the pass reaches it, and its parent stays what it was; the same happens
  to an element below a node that carried the wrapper class from the start. And when the
  root element of the document is itself eligible and not excluded, \<open>insertBefore\<close> on the
  document node throws a \<open>HierarchyRequestError\<close>, the pass ends there and the root
  element keeps the document as its parent. What holds: in a document in which every
  element selected by the pass has an element as its parent (so the root element is not
  selected), every eligible, non-excluded element that has no ancestor (itself included)
  carrying the wrapper class and no eligible, non-excluded proper ancestor ends up as
  the last child of a newly created node that carries the wrapper class and stands
  under the element's former parent; the wrapper's children before the element are, in
  order, one node per configured inner-layer class name.
\<close>

theorem eligible_nested_counterexample:
  "6 \<in> set (querySelectorAll (selectors Buttons1) nested_page) \<and>
   \<not> excluded Buttons1 6 nested_page \<and>
   parentNode 6 (final (run no_style Buttons1 nested_page)) = Some 5 \<and>
   \<not> has_class ''btn-animated-wrapper'' (final (run no_style Buttons1 nested_page)) 5 \<and>
   1 \<in> set (querySelectorAll (selectors Buttons1) root_page) \<and>
   clear Buttons1 1 root_page \<and>
   raised (run no_style Buttons1 root_page) = Some HierarchyRequestError \<and>
   parentNode 1 (final (run no_style Buttons1 root_page)) = Some document \<and>
   \<not> has_class ''btn-animated-wrapper'' (final (run no_style Buttons1 root_page)) document \<and>
   5 \<in> set (querySelectorAll (selectors Buttons1) wrapped_page) \<and>
   \<not> excluded Buttons1 5 wrapped_page \<and> topmost Buttons1 5 wrapped_page \<and>
   parentNode 5 (final (run no_style Buttons1 wrapped_page)) = Some 4 \<and>
   \<not> has_class ''btn-animated-wrapper'' (final (run no_style Buttons1 wrapped_page)) 4"
  by code_simp

theorem topmost_candidate_gets_wrapper:
  assumes "wf st" and "safe ps st"
    and "e \<in> set (querySelectorAll (selectors ps) st)" and "clear ps e st"
  shows "\<exists>st' w ls. run g ps st = Inr st' \<and>
           parentNode e st' = Some w \<and> nextId st \<le> w \<and>
           has_class (wrapperClass ps) st' w \<and> parentNode w st' = parentNode e st \<and>
           childIds w st' = ls @ [e] \<and>
           map (\<lambda>l. map_option classList (attrsOf l st')) ls =
             map (\<lambda>c. Some [c]) (layerClasses ps)"
proof -
  from run_owns [OF assms, of g] obtain st' w where
    r: "run g ps st = Inr st'" and o: "owns ps st e st' w" by blast
  from o have "parentNode e st' = Some w" "nextId st \<le> w" "parentNode w st' = parentNode e st"
    "childIds w st' = layerIds w (layerAttrs ps) @ [e]"
    by (simp_all add: owns_def)
  with r owns_has_class [OF o] owns_layer_classes [OF o] show ?thesis by blast
qed

theorem topmost_candidate_gets_wrapper_witness:
  "wf form_page \<and> safe Inputs2 form_page \<and>
   3 \<in> set (querySelectorAll (selectors Inputs2) form_page) \<and> clear Inputs2 3 form_page \<and>
   (\<exists>st' w ls. run no_style Inputs2 form_page = Inr st' \<and>
      parentNode 3 st' = Some w \<and> nextId form_page \<le> w \<and>
      has_class (wrapperClass Inputs2) st' w \<and> parentNode w st' = parentNode 3 form_page \<and>
      childIds w st' = ls @ [3] \<and>
      map (\<lambda>l. map_option classList (attrsOf l st')) ls =
        map (\<lambda>c. Some [c]) (layerClasses Inputs2))"
proof -
  have h: "wf form_page" "safe Inputs2 form_page"
    "3 \<in> set (querySelectorAll (selectors Inputs2) form_page)" "clear Inputs2 3 form_page"
    by code_simp+
  from topmost_candidate_gets_wrapper [OF h, of no_style] h show ?thesis by blast
qed

text \<open>
  C4. As stated the claim fails: two eligible, non-excluded siblings that sit inside an
  eligible element get no wrappers of their own; their parent stays what it was, and the
  only wrapper above them is the one of their common ancestor, which does not precede
  itself. What holds: in a document in which every element selected by the pass has an
  element as its parent, when two elements that the pass wraps (each eligible, not
  excluded, with no ancestor carrying the wrapper class and no eligible non-excluded
  proper ancestor) stand in document order A before B, then after the pass A's wrapper
  precedes B's wrapper in document order; each wrapper stands under the former parent of
  its element, so the wrappers of siblings are siblings again.
\<close>

theorem eligible_siblings_counterexample:
  "4 \<in> set (querySelectorAll (selectors Buttons1) siblings_page) \<and>
   5 \<in> set (querySelectorAll (selectors Buttons1) siblings_page) \<and>
   \<not> excluded Buttons1 4 siblings_page \<and> \<not> excluded Buttons1 5 siblings_page \<and>
   parentNode 4 siblings_page = Some 3 \<and> parentNode 5 siblings_page = Some 3 \<and>
   precedes 4 5 (ids (forest siblings_page)) \<and>
   raised (run no_style Buttons1 siblings_page) = None \<and>
   parentNode 4 (final (run no_style Buttons1 siblings_page)) = Some 3 \<and>
   parentNode 5 (final (run no_style Buttons1 siblings_page)) = Some 3 \<and>
   \<not> has_class ''btn-animated-wrapper'' (final (run no_style Buttons1 siblings_page)) 3 \<and>
   closest 4 ''btn-animated-wrapper'' (final (run no_style Buttons1 siblings_page)) = Some 6 \<and>
   closest 5 ''btn-animated-wrapper'' (final (run no_style Buttons1 siblings_page)) = Some 6 \<and>
   \<not> precedes 6 6 (ids (forest (final (run no_style Buttons1 siblings_page))))"
  by code_simp

theorem wrappers_keep_document_order:
  assumes "wf st" and "safe ps st"
    and "a \<in> set (querySelectorAll (selectors ps) st)" and "clear ps a st"
    and "b \<in> set (querySelectorAll (selectors ps) st)" and "clear ps b st"
    and "precedes a b (ids (forest st))"
  shows "\<exists>st' wa wb. run g ps st = Inr st' \<and>
           parentNode a st' = Some wa \<and> parentNode b st' = Some wb \<and>
           has_class (wrapperClass ps) st' wa \<and> has_class (wrapperClass ps) st' wb \<and>
           parentNode wa st' = parentNode a st \<and> parentNode wb st' = parentNode b st \<and>
           precedes wa wb (ids (forest st'))"
proof -
  from run_owns [OF assms(1,2,3,4), of g] obtain st' wa where
    r: "run g ps st = Inr st'" and oa: "owns ps st a st' wa" by blast
  from run_owns [OF assms(1,2,5,6), of g] r obtain wb where ob: "owns ps st b st' wb" by auto
  from assms(2,3,5) have "placed a st" "placed b st" by (simp_all add: safe_def)
  then have "a < nextId st" "b < nextId st" using assms(1) by (simp_all add: placed_old)
  from run_order [OF assms(1,2) this assms(7), of g] r
  have "precedes (outer (nextId st) st' a) (outer (nextId st) st' b) (ids (forest st'))" by auto
  then have "precedes wa wb (ids (forest st'))"
    by (simp add: owns_outer [OF oa] owns_outer [OF ob])
  moreover from oa ob have "parentNode a st' = Some wa" "parentNode b st' = Some wb"
    "parentNode wa st' = parentNode a st" "parentNode wb st' = parentNode b st"
    by (simp_all add: owns_def)
  ultimately show ?thesis using r owns_has_class [OF oa] owns_has_class [OF ob] by blast
qed

theorem wrappers_keep_document_order_witness:
  "wf nested_page \<and> safe Buttons1 nested_page \<and>
   3 \<in> set (querySelectorAll (selectors Buttons1) nested_page) \<and> clear Buttons1 3 nested_page \<and>
   5 \<in> set (querySelectorAll (selectors Buttons1) nested_page) \<and> clear Buttons1 5 nested_page \<and>
   precedes 3 5 (ids (forest nested_page)) \<and>
   (\<exists>st' wa wb. run no_style Buttons1 nested_page = Inr st' \<and>
      parentNode 3 st' = Some wa \<and> parentNode 5 st' = Some wb \<and>
      has_class (wrapperClass Buttons1) st' wa \<and> has_class (wrapperClass Buttons1) st' wb \<and>
      parentNode wa st' = parentNode 3 nested_page \<and>
      parentNode wb st' = parentNode 5 nested_page \<and>
      precedes wa wb (ids (forest st')))"
proof -
  have h: "wf nested_page" "safe Buttons1 nested_page"
    "3 \<in> set (querySelectorAll (selectors Buttons1) nested_page)" "clear Buttons1 3 nested_page"
    "5 \<in> set (querySelectorAll (selectors Buttons1) nested_page)" "clear Buttons1 5 nested_page"
    "precedes 3 5 (ids (forest nested_page))"
    by code_simp+
  from wrappers_keep_document_order [OF h, of no_style] h show ?thesis by blast
qed



text \<open>
  C6. As stated the claim fails: the two passes guard on different wrapper classes, so
  an element that both passes decorate ends up with an input wrapper and a button
  wrapper created for it; an element decorated by one pass whose ancestor is decorated
  by the other ends up inside two newly created wrappers; and when the root element of
  the document is decorated, \<open>insertBefore\<close> on the document node throws and the element
  gets no wrapper at all. What
  holds: in a document in which every element selected by either pass has an element as
  its parent, an element that one of the two passes wraps (eligible for it, not excluded,
  with no ancestor carrying that pass's wrapper class and no eligible non-excluded proper
  ancestor) and that the other pass leaves alone (neither the element nor one of its
  ancestors is eligible and non-excluded for the other pass) is, after the script has
  run, nested exactly one level deeper, inside exactly one newly created node, its
  wrapper, which carries the wrapper class of the pass that wrapped it; and running the
  script any number of times more changes nothing.
\<close>

theorem two_wrappers_counterexample:
  "parentNode 3 (final (listener1 no_style form_page)) = Some 7 \<and>
   parentNode 7 (final (listener1 no_style form_page)) = Some 5 \<and>
   has_class ''btn-animated-wrapper'' (final (listener1 no_style form_page)) 7 \<and>
   has_class ''input-animated-wrapper'' (final (listener1 no_style form_page)) 5 \<and>
   nextId form_page = 5 \<and>
   1 \<in> set (querySelectorAll (selectors Buttons1) root_page) \<and>
   clear Buttons1 1 root_page \<and> untouched Inputs1 1 root_page \<and>
   raised (listener1 no_style root_page) = Some HierarchyRequestError \<and>
   chain 1 (forest (final (listener1 no_style root_page))) = [1, document] \<and>
   4 \<in> set (querySelectorAll (selectors Inputs1) inner_page) \<and>
   clear Inputs1 4 inner_page \<and> nextId inner_page = 5 \<and>
   raised (listener1 no_style inner_page) = None \<and>
   chain 4 (forest (final (listener1 no_style inner_page))) = [4, 5, 3, 6, 2, 1, 0]"
  by code_simp

theorem one_wrapper_per_target:
  assumes "well_formed st" and "safe (inputPass k) st" and "safe (buttonPass k) st"
    and "(ps, ps') = (inputPass k, buttonPass k) \<or> (ps, ps') = (buttonPass k, inputPass k)"
    and "e \<in> set (querySelectorAll (selectors ps) st)"
    and "clear ps e st" and "untouched ps' e st"
  shows "\<exists>st' w. listener g k st = Inr st' \<and> listener g k st' = Inr st' \<and>
           chain e (forest st') = e # w # tl (chain e (forest st)) \<and>
           has_class (wrapperClass ps) st' w \<and>
           filter (\<lambda>i. nextId st \<le> i) (chain e (forest st')) = [w]"
proof -
  have wf: "wf st" using assms(1) by (rule well_formed_wf)
  have "placed e st" using assms(2,3,4,5) by (auto simp: safe_def)
  then have en: "e < nextId st" using wf by (rule placed_old)
  have "\<exists>st' w. listener g k st = Inr st' \<and> listener g k st' = Inr st' \<and>
      chain e (forest st') = e # w # tl (chain e (forest st)) \<and> nextId st \<le> w \<and>
      has_class (wrapperClass ps) st' w"
    using assms(4)
  proof
    assume "(ps, ps') = (inputPass k, buttonPass k)"
    then have "ps = inputPass k" "ps' = buttonPass k" by simp_all
    with listener_owns_input [OF assms(1,2,3), of e g] assms(5,6,7) show ?thesis by simp
  next
    assume "(ps, ps') = (buttonPass k, inputPass k)"
    then have "ps = buttonPass k" "ps' = inputPass k" by simp_all
    with listener_owns_button [OF assms(1,2,3), of e g] assms(5,6,7) show ?thesis by simp
  qed
  then obtain st' w where l: "listener g k st = Inr st'" "listener g k st' = Inr st'"
    and c: "chain e (forest st') = e # w # tl (chain e (forest st))" and w: "nextId st \<le> w"
    and h: "has_class (wrapperClass ps) st' w" by blast
  have "filter (\<lambda>i. nextId st \<le> i) (chain e (forest st')) = [w]"
    using filter_new_chain [OF wf en w] by (simp only: c)
  with l c h show ?thesis by blast
qed

theorem one_wrapper_per_target_witness:
  "well_formed form_page \<and> safe (inputPass First) form_page \<and>
   safe (buttonPass First) form_page \<and>
   4 \<in> set (querySelectorAll (selectors Inputs1) form_page) \<and> clear Inputs1 4 form_page \<and>
   untouched Buttons1 4 form_page \<and>
   (\<exists>st' w. listener no_style First form_page = Inr st' \<and>
      listener no_style First st' = Inr st' \<and>
      chain 4 (forest st') = 4 # w # tl (chain 4 (forest form_page)) \<and>
      has_class (wrapperClass Inputs1) st' w \<and>
      filter (\<lambda>i. nextId form_page \<le> i) (chain 4 (forest st')) = [w])"
proof -
  have h: "well_formed form_page" "safe (inputPass First) form_page"
    "safe (buttonPass First) form_page"
    "(Inputs1, Buttons1) = (inputPass First, buttonPass First) \<or>
     (Inputs1, Buttons1) = (buttonPass First, inputPass First)"
    "4 \<in> set (querySelectorAll (selectors Inputs1) form_page)" "clear Inputs1 4 form_page"
    "untouched Buttons1 4 form_page"
    by code_simp+
  from one_wrapper_per_target [OF h, of no_style] h show ?thesis by blast
qed

text \<open>
  C7. As stated the claim fails: only the first script copies a width; the input pass
  of the second script sets no width on the wrappers it creates. What holds: in the
  first script's input pass, a wrapped input that had a non-empty inline width before
  the pass has a wrapper with exactly that inline width afterwards.
\<close>

theorem width_not_copied_counterexample:
  "3 \<in> set (querySelectorAll inputs2 form_page) \<and> style_width 3 form_page = ''100px'' \<and>
   parentNode 3 (final (decorate_inputs2 form_page)) = Some 5 \<and>
   has_class ''input-animated-wrapper'' (final (decorate_inputs2 form_page)) 5 \<and>
   style_width 5 (final (decorate_inputs2 form_page)) = []"
  by code_simp

theorem inline_width_copied_first_script:
  assumes "wf st" and "safe Inputs1 st"
    and "e \<in> set (querySelectorAll inputs1 st)" and "clear Inputs1 e st"
    and "style_width e st \<noteq> []"
  shows "\<exists>st' w. decorate_inputs1 g st = Inr st' \<and> parentNode e st' = Some w \<and>
           has_class ''input-animated-wrapper'' st' w \<and>
           style_width w st' = style_width e st"
proof -
  from assms(3) have "e \<in> set (querySelectorAll (selectors Inputs1) st)" by simp
  from run_owns [OF assms(1,2) this assms(4), of g] obtain st' w where
    r: "run g Inputs1 st = Inr st'" and o: "owns Inputs1 st e st' w" by blast
  from o assms(5) have "style_width w st' = style_width e st"
    by (auto simp: owns_def style_width_def split: option.splits)
  moreover from o have "parentNode e st' = Some w" by (simp add: owns_def)
  ultimately show ?thesis using r owns_has_class [OF o] by auto
qed

theorem inline_width_copied_first_script_witness:
  "wf form_page \<and> safe Inputs1 form_page \<and> 3 \<in> set (querySelectorAll inputs1 form_page) \<and>
   clear Inputs1 3 form_page \<and> style_width 3 form_page \<noteq> [] \<and>
   (\<exists>st' w. decorate_inputs1 no_style form_page = Inr st' \<and> parentNode 3 st' = Some w \<and>
      has_class ''input-animated-wrapper'' st' w \<and>
      style_width w st' = style_width 3 form_page)"
proof -
  have h: "wf form_page" "safe Inputs1 form_page" "3 \<in> set (querySelectorAll inputs1 form_page)"
    "clear Inputs1 3 form_page" "style_width 3 form_page \<noteq> []"
    by code_simp+
  from inline_width_copied_first_script [OF h, of no_style] h show ?thesis by blast
qed

text \<open>
  C8. Running a decoration pass on a document in which no element matches the pass's
  selector list leaves the document unchanged and raises no error; the same holds for
  each script as a whole when neither of its two queries matches anything.
\<close>

theorem no_op_without_matches:
  "(querySelectorAll (selectors ps) st = [] \<longrightarrow> run g ps st = Inr st) \<and>
   (querySelectorAll inputs1 st = [] \<and> querySelectorAll buttons1 st = [] \<longrightarrow>
      listener1 g st = Inr st) \<and>
   (querySelectorAll inputs2 st = [] \<and> querySelectorAll buttons2 st = [] \<longrightarrow>
      listener2 st = Inr st)"
  by (simp add: run_forEach listener1_def listener2_def decorate_inputs1_def
        decorate_buttons1_def decorate_inputs2_def decorate_buttons2_def andThen_def)

theorem no_op_without_matches_witness:
  "querySelectorAll (selectors Buttons2) plain_page = [] \<and>
   run no_style Buttons2 plain_page = Inr plain_page \<and>
   querySelectorAll inputs1 plain_page = [] \<and> querySelectorAll buttons1 plain_page = [] \<and>
   listener1 no_style plain_page = Inr plain_page \<and>
   querySelectorAll inputs2 plain_page = [] \<and> querySelectorAll buttons2 plain_page = [] \<and>
   listener2 plain_page = Inr plain_page"
proof -
  have h: "querySelectorAll (selectors Buttons2) plain_page = []"
    "querySelectorAll inputs1 plain_page = []" "querySelectorAll buttons1 plain_page = []"
    "querySelectorAll inputs2 plain_page = []" "querySelectorAll buttons2 plain_page = []"
    by code_simp+
  from no_op_without_matches [of Buttons2 plain_page no_style] h show ?thesis by simp
qed

text \<open>
  C9. Decorating a target is an in-place parent substitution. For an element that is
  not skipped, is an element node and has an element as parent, the callback completes;
  the new wrapper takes the target's place in the child list of every node that listed
  the target (its former parent), all other entries of all child lists of existing
  nodes keep their values and positions, the wrapper's parent is the target's former
  parent, the target's parent is the wrapper and the target is the wrapper's last child;
  the target itself, with its attributes and its whole subtree, is the very same node
  as before, and the attributes and parents of all other existing nodes are unchanged.
\<close>

theorem decoration_is_parent_substitution:
  assumes "wf st" and "placed e st" and "\<not> skips ps e st"
  shows "\<exists>st'. callback g ps e st = Inr st' \<and>
           parentNode e st' = Some (nextId st) \<and>
           parentNode (nextId st) st' = parentNode e st \<and>
           (\<exists>ls. childIds (nextId st) st' = ls @ [e]) \<and>
           (\<forall>x<nextId st. childIds x st' =
              map (\<lambda>c. if c = e then nextId st else c) (childIds x st)) \<and>
           lookup e (forest st') = lookup e (forest st) \<and>
           (\<forall>x<nextId st. attrsOf x st' = attrsOf x st) \<and>
           (\<forall>x<nextId st. x \<noteq> e \<longrightarrow> parentNode x st' = parentNode x st)"
proof -
  let ?wa = "wrapperAttrs g ps st e" and ?las = "layerAttrs ps"
  let ?st' = "decorated ?wa ?las e st"
  have e: "e \<in> set (ids (forest st))" using assms(2) by (rule placed_in)
  then have en: "e < nextId st" using wfD(2) [OF assms(1)] by blast
  have c: "callback g ps e st = Inr ?st'"
    using callback_step [OF assms(1,2), of g ps] assms(3) by (simp add: step_def)
  have nl: "nextId st \<notin> set (layerIds (nextId st) ?las)" "nextId st \<noteq> e"
    using layerIds_gt [of "nextId st" "nextId st" ?las] en by auto
  have p: "\<And>x. parentNode x ?st' =
     (if x = e \<or> x \<in> set (layerIds (nextId st) ?las) then Some (nextId st)
      else if x = nextId st then parentNode e st else parentNode x st)"
    using assms(1) e by (rule parentNode_decorated)
  have p3: "\<forall>x<nextId st. x \<noteq> e \<longrightarrow> parentNode x ?st' = parentNode x st"
  proof (intro allI impI)
    fix x assume x: "x < nextId st" "x \<noteq> e"
    have "x \<notin> set (layerIds (nextId st) ?las)"
    proof
      assume "x \<in> set (layerIds (nextId st) ?las)"
      then have "nextId st < x" by (rule layerIds_gt)
      with x(1) show False by simp
    qed
    with x show "parentNode x ?st' = parentNode x st" by (simp add: p)
  qed
  show ?thesis
    using c p [of e] p [of "nextId st"] nl p3
      childIds_decorated_wrapper [OF assms(1) e, of ?wa ?las]
      childIds_decorated_old [OF assms(1), of _ ?wa ?las e]
      lookup_decorated_target [OF assms(1) e, of ?wa ?las]
      attrsOf_decorated_old [OF assms(1), of _ ?wa ?las e]
    by (intro exI [of _ ?st']) simp
qed

theorem decoration_is_parent_substitution_witness:
  "wf form_page \<and> placed 3 form_page \<and> \<not> skips Inputs2 3 form_page \<and>
   (\<exists>st'. callback no_style Inputs2 3 form_page = Inr st' \<and>
      parentNode 3 st' = Some (nextId form_page) \<and>
      parentNode (nextId form_page) st' = parentNode 3 form_page \<and>
      (\<exists>ls. childIds (nextId form_page) st' = ls @ [3]) \<and>
      (\<forall>x<nextId form_page. childIds x st' =
         map (\<lambda>c. if c = 3 then nextId form_page else c) (childIds x form_page)) \<and>
      lookup 3 (forest st') = lookup 3 (forest form_page) \<and>
      (\<forall>x<nextId form_page. attrsOf x st' = attrsOf x form_page) \<and>
      (\<forall>x<nextId form_page. x \<noteq> 3 \<longrightarrow> parentNode x st' = parentNode x form_page))"
proof -
  have h: "wf form_page" "placed 3 form_page" "\<not> skips Inputs2 3 form_page" by code_simp+
  from decoration_is_parent_substitution [OF h, of no_style] h show ?thesis by blast
qed

text \<open>
  C10. Only the button pass of the second script gives its wrappers an inline display
  style. For each callback, the wrapper it creates carries the pass's wrapper class and
  has the inline style \<open>display: inline-block\<close> exactly when the pass is the second
  script's button pass; and after a whole pass, every node the pass created has that
  display style if it is a wrapper of the second script's button pass and no display
  style otherwise.
\<close>

theorem inline_block_only_on_second_button_wrapper:
  "(wf st \<and> placed e st \<and> \<not> skips ps e st \<longrightarrow>
      (\<exists>st' a. callback g ps e st = Inr st' \<and> parentNode e st' = Some (nextId st) \<and>
         attrsOf (nextId st) st' = Some a \<and> classList a = [wrapperClass ps] \<and>
         styleDisplay a = (if ps = Buttons2 then ''inline-block'' else []))) \<and>
   (wf st \<and> safe ps st \<longrightarrow>
      (\<exists>st'. run g ps st = Inr st' \<and>
         (\<forall>x a. nextId st \<le> x \<and> attrsOf x st' = Some a \<longrightarrow>
            styleDisplay a =
              (if ps = Buttons2 \<and> classList a = [wrapperClass ps] then ''inline-block''
               else []))))"
proof (intro conjI impI)
  assume a: "wf st \<and> placed e st \<and> \<not> skips ps e st"
  let ?wa = "wrapperAttrs g ps st e" and ?las = "layerAttrs ps"
  let ?st' = "decorated ?wa ?las e st"
  from a have wf: "wf st" and pl: "placed e st" and ns: "\<not> skips ps e st" by auto
  have e: "e \<in> set (ids (forest st))" using pl by (rule placed_in)
  have c: "callback g ps e st = Inr ?st'"
    using callback_step [OF wf pl, of g ps] ns by (simp add: step_def)
  have d: "styleDisplay ?wa = (if ps = Buttons2 then ''inline-block'' else [])"
    by (cases ps) (simp_all add: div_with_def)
  show "\<exists>st' a. callback g ps e st = Inr st' \<and> parentNode e st' = Some (nextId st) \<and>
         attrsOf (nextId st) st' = Some a \<and> classList a = [wrapperClass ps] \<and>
         styleDisplay a = (if ps = Buttons2 then ''inline-block'' else [])"
    using c d parentNode_decorated [OF wf e, of e ?wa ?las]
      attrsOf_decorated_wrapper [OF wf e, of ?wa ?las] wrapperAttrs_class [of g ps st e]
    by (intro exI [of _ ?st'] exI [of _ ?wa]) simp
next
  assume a: "wf st \<and> safe ps st"
  then have wf: "wf st" and safe: "safe ps st" by auto
  from run_all_skip [OF wf safe, of g] obtain st' where
    r: "run g ps st = Inr st'" and g: "grown ps st st'" by blast
  have "\<forall>x a. nextId st \<le> x \<and> attrsOf x st' = Some a \<longrightarrow>
      styleDisplay a =
        (if ps = Buttons2 \<and> classList a = [wrapperClass ps] then ''inline-block'' else [])"
    using grownD(5) [OF g] created_display by blast
  with r show "\<exists>st'. run g ps st = Inr st' \<and>
         (\<forall>x a. nextId st \<le> x \<and> attrsOf x st' = Some a \<longrightarrow>
            styleDisplay a =
              (if ps = Buttons2 \<and> classList a = [wrapperClass ps] then ''inline-block''
               else []))"
    by blast
qed

theorem inline_block_only_on_second_button_wrapper_witness:
  "wf form_page \<and> placed 3 form_page \<and> \<not> skips Buttons2 3 form_page \<and>
   safe Buttons2 form_page \<and>
   (\<exists>st' a. callback no_style Buttons2 3 form_page = Inr st' \<and>
      parentNode 3 st' = Some (nextId form_page) \<and>
      attrsOf (nextId form_page) st' = Some a \<and> classList a = [wrapperClass Buttons2] \<and>
      styleDisplay a = ''inline-block'') \<and>
   (\<exists>st'. run no_style Buttons2 form_page = Inr st' \<and>
      (\<forall>x a. nextId form_page \<le> x \<and> attrsOf x st' = Some a \<longrightarrow>
         styleDisplay a =
           (if classList a = [wrapperClass Buttons2] then ''inline-block'' else [])))"
proof -
  have h: "wf form_page" "placed 3 form_page" "\<not> skips Buttons2 3 form_page"
    "safe Buttons2 form_page" by code_simp+
  from inline_block_only_on_second_button_wrapper [of form_page 3 Buttons2 no_style] h
  show ?thesis by simp
qed

end
